theory Spec2Isabelle
  imports Main "HOL-Library.Sublist"
begin

section \<open>Characters and character classes\<close>

text \<open>
  Text is a list of characters with code points 0..255.  The three character tests below
  are the ones Python's \<open>re\<close> module and \<open>str.lower\<close> apply to a \<open>str\<close>, restricted
  to that range: \<open>\s\<close> is Unicode white space, \<open>\w\<close> is an alphanumeric character or
  the underscore, and lower-casing maps A-Z and the Latin-1 capitals to their small letters.
\<close>

definition lower_char :: "char \<Rightarrow> char" where
  "lower_char c =
     (let n = (of_char c :: nat)
      in if (65 \<le> n \<and> n \<le> 90) \<or> (192 \<le> n \<and> n \<le> 222 \<and> n \<noteq> 215)
         then char_of (n + 32) else c)"

definition lower :: "string \<Rightarrow> string" where
  "lower s = map lower_char s"

definition is_space :: "char \<Rightarrow> bool" where
  "is_space c =
     (let n = (of_char c :: nat)
      in (9 \<le> n \<and> n \<le> 13) \<or> (28 \<le> n \<and> n \<le> 32) \<or> n = 133 \<or> n = 160)"

definition is_word :: "char \<Rightarrow> bool" where
  "is_word c =
     (let n = (of_char c :: nat)
      in (48 \<le> n \<and> n \<le> 57) \<or> (65 \<le> n \<and> n \<le> 90) \<or> n = 95 \<or> (97 \<le> n \<and> n \<le> 122)
         \<or> n = 170 \<or> n = 178 \<or> n = 179 \<or> n = 181 \<or> n = 185 \<or> n = 186
         \<or> (188 \<le> n \<and> n \<le> 190) \<or> (192 \<le> n \<and> n \<le> 214) \<or> (216 \<le> n \<and> n \<le> 246)
         \<or> 248 \<le> n)"

section \<open>Regular expressions as compiled with \<open>re.IGNORECASE\<close>\<close>

text \<open>
  The constructs that occur in the crawler's patterns: a literal character (compared
  case-insensitively), \<open>\s\<close>, concatenation, alternation \<open>a|b\<close>, the greedy \<open>a?\<close> and
  \<open>a*\<close>, the negative lookahead \<open>(?!\w)\<close> and the anchor \<open>$\<close>.
\<close>

datatype regex =
    Eps
  | Lit char
  | Space
  | Seq regex regex
  | Alt regex regex
  | Opt regex
  | Star regex
  | NotWordAhead
  | Dollar

text \<open>
  \<open>rmatch r s\<close> lists, in the order in which the backtracking matcher tries them, the
  remainders of \<open>s\<close> that are left after \<open>r\<close> has matched a prefix of \<open>s\<close>.  Greedy
  operators try the longer alternative first.  An iteration of \<open>a*\<close> that consumes nothing
  is not repeated.
\<close>

fun rmatch :: "regex \<Rightarrow> string \<Rightarrow> string list" where
  "rmatch Eps s = [s]"
| "rmatch (Lit c) s =
     (case s of [] \<Rightarrow> [] | x # xs \<Rightarrow> if lower_char x = lower_char c then [xs] else [])"
| "rmatch Space s = (case s of [] \<Rightarrow> [] | x # xs \<Rightarrow> if is_space x then [xs] else [])"
| "rmatch (Seq a b) s = concat (map (rmatch b) (rmatch a s))"
| "rmatch (Alt a b) s = rmatch a s @ rmatch b s"
| "rmatch (Opt a) s = rmatch a s @ [s]"
| "rmatch (Star a) s =
     concat (map (rmatch (Star a)) (filter (\<lambda>r. length r < length s) (rmatch a s))) @ [s]"
| "rmatch NotWordAhead s = (case s of [] \<Rightarrow> [s] | x # xs \<Rightarrow> if is_word x then [] else [s])"
| "rmatch Dollar s = (if s = [] \<or> s = [CHR 0x0A] then [s] else [])"

text \<open>The equation for \<open>a*\<close> mentions itself, so it is unfolded only on request.\<close>

declare rmatch.simps(7) [simp del]

text \<open>\<open>pattern.match\<close> at the start of \<open>s\<close>: the text consumed by the first successful path.\<close>

definition match_here :: "regex \<Rightarrow> string \<Rightarrow> string option" where
  "match_here r s =
     (case rmatch r s of [] \<Rightarrow> None | rest # _ \<Rightarrow> Some (take (length s - length rest) s))"

text \<open>
  \<open>pattern.search(text)\<close> followed by \<open>match.group()\<close>: the leftmost start position at
  which the pattern matches, including the position at the end of the text.
\<close>

fun search :: "regex \<Rightarrow> string \<Rightarrow> string option" where
  "search r [] = match_here r []"
| "search r (x # xs) =
     (case match_here r (x # xs) of Some m \<Rightarrow> Some m | None \<Rightarrow> search r xs)"

text \<open>A pattern that is a plain string, and a sequence of patterns.\<close>

definition str :: "string \<Rightarrow> regex" where
  "str s = foldr (\<lambda>c r. Seq (Lit c) r) s Eps"

definition seqs :: "regex list \<Rightarrow> regex" where
  "seqs rs = foldr Seq rs Eps"

section \<open>The two pattern sets\<close>

text \<open>
  \<open>web_crawler_regex.py\<close>, \<open>self.address_patterns\<close> compiled with \<open>re.IGNORECASE\<close>.
  Note that \<open>14th?\<close> is the text \<open>14t\<close> followed by an optional \<open>h\<close>.
  \<^enum> \<open>835\s*(?:E\.?\s*)?14th?\s*(?:St\.?)?(?!\w)\<close>
  \<^enum> \<open>835\s*E\.?\s*14th?\s*St\.?\<close>
  \<^enum> \<open>835\s*E\.?\s*14\s*St\.?\<close>
  \<^enum> \<open>835\s*14th?\s*St\.?\<close>
  \<^enum> \<open>835\s*14th?(?!\w)\<close>
  \<^enum> \<open>835\s*East\s*14th?\s*(?:St\.?|Street)?\<close>
  \<^enum> \<open>835\s*E\s*14(?!\w)\<close>
\<close>

definition address_patterns :: "regex list" where
  "address_patterns =
    [ seqs [str ''835'', Star Space,
            Opt (seqs [Lit CHR ''E'', Opt (Lit CHR ''.''), Star Space]),
            str ''14t'', Opt (Lit CHR ''h''), Star Space,
            Opt (seqs [str ''St'', Opt (Lit CHR ''.'')]), NotWordAhead],
      seqs [str ''835'', Star Space, Lit CHR ''E'', Opt (Lit CHR ''.''), Star Space,
            str ''14t'', Opt (Lit CHR ''h''), Star Space, str ''St'', Opt (Lit CHR ''.'')],
      seqs [str ''835'', Star Space, Lit CHR ''E'', Opt (Lit CHR ''.''), Star Space,
            str ''14'', Star Space, str ''St'', Opt (Lit CHR ''.'')],
      seqs [str ''835'', Star Space, str ''14t'', Opt (Lit CHR ''h''), Star Space,
            str ''St'', Opt (Lit CHR ''.'')],
      seqs [str ''835'', Star Space, str ''14t'', Opt (Lit CHR ''h''), NotWordAhead],
      seqs [str ''835'', Star Space, str ''East'', Star Space, str ''14t'',
            Opt (Lit CHR ''h''), Star Space,
            Opt (Alt (seqs [str ''St'', Opt (Lit CHR ''.'')]) (str ''Street''))],
      seqs [str ''835'', Star Space, Lit CHR ''E'', Star Space, str ''14'', NotWordAhead] ]"

text \<open>
  \<open>web_crawler_regex_fast_juniper.py\<close>, \<open>self.address_patterns\<close> and \<open>self.quick_check\<close>.
  \<^enum> \<open>14735\s*Juniper\s*(?:St\.?|Street)?(?!\w)\<close>
  \<^enum> \<open>14735\s*Juniper\s*St\.?\<close>
  \<^enum> \<open>14735\s*Juniper\s*Street\<close>
  \<^enum> \<open>14735\s*Juniper(?!\w)\<close>
  \<^enum> \<open>14735\s*(?:N\.?\s*)?Juniper\s*(?:St\.?|Street)?\<close>
  \<^enum> \<open>14735\s*North\s*Juniper\s*(?:St\.?|Street)?\<close>
  \<^enum> \<open>14735\s*N\s*Juniper(?!\w)\<close>
\<close>

definition juniper_patterns :: "regex list" where
  "juniper_patterns =
    [ seqs [str ''14735'', Star Space, str ''Juniper'', Star Space,
            Opt (Alt (seqs [str ''St'', Opt (Lit CHR ''.'')]) (str ''Street'')), NotWordAhead],
      seqs [str ''14735'', Star Space, str ''Juniper'', Star Space, str ''St'',
            Opt (Lit CHR ''.'')],
      seqs [str ''14735'', Star Space, str ''Juniper'', Star Space, str ''Street''],
      seqs [str ''14735'', Star Space, str ''Juniper'', NotWordAhead],
      seqs [str ''14735'', Star Space,
            Opt (seqs [Lit CHR ''N'', Opt (Lit CHR ''.''), Star Space]),
            str ''Juniper'', Star Space,
            Opt (Alt (seqs [str ''St'', Opt (Lit CHR ''.'')]) (str ''Street''))],
      seqs [str ''14735'', Star Space, str ''North'', Star Space, str ''Juniper'', Star Space,
            Opt (Alt (seqs [str ''St'', Opt (Lit CHR ''.'')]) (str ''Street''))],
      seqs [str ''14735'', Star Space, Lit CHR ''N'', Star Space, str ''Juniper'',
            NotWordAhead] ]"

definition quick_check :: string where
  "quick_check = ''14735''"

section \<open>\<open>check_address_in_text\<close>\<close>

text \<open>\<open>needle in text\<close> for Python strings.\<close>

fun occurs_in :: "string \<Rightarrow> string \<Rightarrow> bool" where
  "occurs_in needle [] = (needle = [])"
| "occurs_in needle (y # ys) = (prefix needle (y # ys) \<or> occurs_in needle ys)"

text \<open>
  The loop over \<open>self.compiled_patterns\<close>: the first pattern whose search succeeds
  returns \<open>(True, match.group())\<close>; a match object is always truthy, also when the
  matched text is empty.
\<close>

fun first_match :: "regex list \<Rightarrow> string \<Rightarrow> bool \<times> string option" where
  "first_match [] text = (False, None)"
| "first_match (p # ps) text =
     (case search p text of Some m \<Rightarrow> (True, Some m) | None \<Rightarrow> first_match ps text)"

text \<open>
  \<open>web_crawler_regex.py\<close>: empty text is not searched.  The argument is always a
  \<open>str\<close>, so the \<open>except\<close> branch is not reached.
\<close>

definition check_address_in_text :: "regex list \<Rightarrow> string \<Rightarrow> bool \<times> string option" where
  "check_address_in_text compiled_patterns text =
     (if text = [] then (False, None) else first_match compiled_patterns text)"

text \<open>\<open>web_crawler_regex_fast_juniper.py\<close>: the same with the literal pre-check.\<close>

definition check_address_in_text_fast ::
  "string \<Rightarrow> regex list \<Rightarrow> string \<Rightarrow> bool \<times> string option" where
  "check_address_in_text_fast quick compiled_patterns text =
     (if text = [] then (False, None)
      else if \<not> occurs_in quick text then (False, None)
      else first_match compiled_patterns text)"

text \<open>Characters that have no upper-case variant: a literal of such characters matches only itself.\<close>

definition plain :: "char \<Rightarrow> bool" where
  "plain c = (let n = (of_char c :: nat) in n < 65 \<or> (90 < n \<and> n < 97) \<or> (122 < n \<and> n < 192))"

section \<open>The environment of the crawler\<close>

text \<open>
  A call that leaves the program (a network request, \<open>time.sleep\<close>) either returns, raises
  an exception that is an \<open>Exception\<close>, or is interrupted by \<open>KeyboardInterrupt\<close>, which
  is not an \<open>Exception\<close> and passes every \<open>except Exception\<close> handler.
\<close>

datatype 'a io = Ok 'a | Failed | Interrupt

datatype parser = HtmlParser | Lxml | Html5lib

text \<open>What the crawler reads from a parsed page.\<close>

record soup =
  soup_text :: string  \<comment> \<open>\<open>soup.get_text()\<close>\<close>
  soup_title :: "string option"  \<comment> \<open>\<open>soup.title.string\<close>, \<open>None\<close> without a title element\<close>
  soup_hrefs :: "string list"  \<comment> \<open>the \<open>href\<close> of every \<open>a\<close> and \<open>link\<close> tag, in document order\<close>

record url_parts =
  scheme :: string
  netloc :: string
  path :: string
  query :: string

text \<open>
  The libraries and the network.  A request is answered by its position in the sequence of
  all requests and sleeps of the run (the first argument), so the same URL may be answered
  differently at different times.
  \<^item> \<open>session_get_page\<close>: \<open>session.get(url, timeout=10)\<close>, \<open>raise_for_status\<close>, the
    charset handling and \<open>response.text\<close>; the result is the text and the content type.
  \<^item> \<open>session_head\<close>: \<open>session.head(url, timeout=5)\<close> and \<open>int\<close> of the
    \<open>content-length\<close> header, \<open>None\<close> when the header is absent or empty.
  \<^item> \<open>session_get_pdf\<close>: \<open>session.get(url, timeout=15)\<close>, \<open>raise_for_status\<close> and
    \<open>PdfReader\<close>; the result lists the pages, \<open>None\<close> for a page whose
    \<open>extract_text()\<close> raises.
  \<^item> \<open>hash_order\<close>: the position of an element in the iteration over a Python set built
    from the given insertions.
\<close>

record world =
  session_get_page :: "nat \<Rightarrow> string \<Rightarrow> (string \<times> string) io"
  session_head :: "nat \<Rightarrow> string \<Rightarrow> int option io"
  session_get_pdf :: "nat \<Rightarrow> string \<Rightarrow> string option list io"
  sleep_interrupted :: "nat \<Rightarrow> bool"
  beautiful_soup :: "parser \<Rightarrow> string \<Rightarrow> soup option"
  urljoin :: "string \<Rightarrow> string \<Rightarrow> string option"
  urlparse :: "string \<Rightarrow> url_parts option"
  hash_order :: "string list \<Rightarrow> string \<Rightarrow> nat"
  now :: "nat \<Rightarrow> string"

section \<open>The crawler object and the files it writes\<close>

datatype event = Get string | Head string | GetPdf string | Sleep nat

record finding =
  f_url :: string
  f_type :: string
  f_title :: string
  f_address_found :: "string option"
  f_notes :: string
  f_parent_page :: string
  f_timestamp :: string

record progress =
  p_pages_crawled :: nat
  p_current_url :: string
  p_found_pages :: nat
  p_found_pdfs :: nat
  p_last_update :: string

text \<open>
  The two source files differ in the patterns, the literal pre-check, the URL skip filter,
  \<open>check_pdf_content\<close>, the delay and the page budget; everything else is the same text.
\<close>

datatype variant = Baseline | Fast

text \<open>
  The attributes of \<open>SLUSDCrawler\<close>, the two files (\<open>None\<close>: the file does not exist; the
  CSV file as its rows), and the requests and sleeps made so far.
\<close>

record crawler =
  base_url :: string
  domain :: string
  visited_urls :: "string set"
  found_pages :: "finding list"
  found_pdfs :: "finding list"
  output_file :: "string list list option"
  progress_file :: "progress option"
  trace :: "event list"

definition fieldnames :: "string list" where
  "fieldnames = [''URL'', ''Type'', ''Title'', ''Address Found'', ''Notes'', ''Parent Page'',
     ''Timestamp'']"

text \<open>\<open>csv.DictWriter.writerow\<close>: the values in the order of \<open>fieldnames\<close>, \<open>None\<close> as \<open>''\<close>.\<close>

definition writerow :: "finding \<Rightarrow> string list" where
  "writerow result =
     [f_url result, f_type result, f_title result,
      (case f_address_found result of None \<Rightarrow> [] | Some m \<Rightarrow> m),
      f_notes result, f_parent_page result, f_timestamp result]"

definition init_csv_file :: "crawler \<Rightarrow> crawler" where
  "init_csv_file c =
     (if output_file c = None then c\<lparr>output_file := Some [fieldnames]\<rparr> else c)"

text \<open>Mode \<open>'a'\<close> creates a missing file.\<close>

definition append_to_csv :: "finding \<Rightarrow> crawler \<Rightarrow> crawler" where
  "append_to_csv result c =
     c\<lparr>output_file :=
          Some ((case output_file c of None \<Rightarrow> [] | Some rows \<Rightarrow> rows) @ [writerow result])\<rparr>"

definition save_progress :: "world \<Rightarrow> nat \<Rightarrow> string \<Rightarrow> crawler \<Rightarrow> crawler" where
  "save_progress w pages_crawled current_url c =
     c\<lparr>progress_file :=
          Some \<lparr>p_pages_crawled = pages_crawled, p_current_url = current_url,
                p_found_pages = length (found_pages c), p_found_pdfs = length (found_pdfs c),
                p_last_update = now w (length (trace c))\<rparr>\<rparr>"

definition is_valid_url :: "world \<Rightarrow> crawler \<Rightarrow> string \<Rightarrow> bool" where
  "is_valid_url w c url =
     (case urlparse w url of
        None \<Rightarrow> False
      | Some parsed \<Rightarrow>
          netloc parsed = domain c \<or> netloc parsed = [] \<or> suffix ''.slusd.us'' (netloc parsed))"

text \<open>
  The fast file only: \<open>self.skip_url_patterns\<close>, compiled with \<open>re.IGNORECASE\<close>, in the
  order of the source (\<open>/css/\<close>, \<open>/js/\<close>, ..., \<open>\.css$\<close>, ..., \<open>#\<close>, \<open>javascript:\<close>,
  \<open>mailto:\<close>, \<open>tel:\<close>, \<open>ftp:\<close>).
\<close>

definition compiled_skip_patterns :: "regex list" where
  "compiled_skip_patterns =
    [ str ''/css/'', str ''/js/'', str ''/images/'', str ''/img/'', str ''/assets/'',
      seqs [str ''.css'', Dollar], seqs [str ''.js'', Dollar], seqs [str ''.png'', Dollar],
      seqs [str ''.jpg'', Dollar], seqs [str ''.jpeg'', Dollar], seqs [str ''.gif'', Dollar],
      seqs [str ''.ico'', Dollar],
      seqs [str ''.woff'', Dollar], seqs [str ''.woff2'', Dollar], seqs [str ''.ttf'', Dollar],
      seqs [str ''.eot'', Dollar], seqs [str ''.svg'', Dollar], seqs [str ''.webp'', Dollar],
      str ''/feeds/'', str ''/rss/'', str ''/sitemap'', seqs [str ''.xml'', Dollar],
      seqs [str ''.json'', Dollar],
      str ''#'', str ''javascript:'', str ''mailto:'', str ''tel:'', str ''ftp:'' ]"

definition should_skip_url :: "string \<Rightarrow> bool" where
  "should_skip_url url = list_ex (\<lambda>pattern. search pattern url \<noteq> None) compiled_skip_patterns"

text \<open>
  \<open>get_page_content\<close>: \<open>None\<close> stands for the pair \<open>(None, None)\<close> returned by both
  \<open>except\<close> branches.  The outer result is \<open>Interrupt\<close> when \<open>KeyboardInterrupt\<close> leaves
  the function, and is never \<open>Failed\<close>.
\<close>

definition get_page_content ::
  "world \<Rightarrow> string \<Rightarrow> crawler \<Rightarrow> (string \<times> string) option io \<times> crawler" where
  "get_page_content w url c =
     (let c' = c\<lparr>trace := trace c @ [Get url]\<rparr>
      in case session_get_page w (length (trace c)) url of
           Ok (text, content_type) \<Rightarrow> (Ok (Some (text, content_type)), c')
         | Failed \<Rightarrow> (Ok None, c')
         | Interrupt \<Rightarrow> (Interrupt, c'))"

text \<open>
  \<open>re.sub(r'[^\x00-\x7F]+', ' ', html_content)\<close>: every maximal run of characters above
  127 becomes one space.  The flag tells whether the preceding character belonged to such
  a run.
\<close>

fun strip_run :: "bool \<Rightarrow> string \<Rightarrow> string" where
  "strip_run in_run [] = []"
| "strip_run in_run (x # xs) =
     (if (of_char x :: nat) < 128 then x # strip_run False xs
      else if in_run then strip_run True xs
      else CHR '' '' # strip_run True xs)"

definition strip_non_ascii :: "string \<Rightarrow> string" where
  "strip_non_ascii html_content = strip_run False html_content"

definition safe_parse_html :: "world \<Rightarrow> string \<Rightarrow> soup option" where
  "safe_parse_html w html_content =
     (case beautiful_soup w HtmlParser html_content of
        Some s \<Rightarrow> Some s
      | None \<Rightarrow>
         (case beautiful_soup w Lxml html_content of
            Some s \<Rightarrow> Some s
          | None \<Rightarrow>
             (case beautiful_soup w Html5lib html_content of
                Some s \<Rightarrow> Some s
              | None \<Rightarrow> beautiful_soup w HtmlParser (strip_non_ascii html_content))))"

text \<open>The body of the loop over the tags in \<open>extract_links\<close>; \<open>None\<close>: the link is skipped.\<close>

definition clean_link :: "world \<Rightarrow> string \<Rightarrow> string \<Rightarrow> string option" where
  "clean_link w base href =
     (case urljoin w base href of
        None \<Rightarrow> None
      | Some full_url \<Rightarrow>
         (case urlparse w full_url of
            None \<Rightarrow> None
          | Some parsed \<Rightarrow>
              Some (scheme parsed @ ''://'' @ netloc parsed @ path parsed @
                    (if query parsed \<noteq> [] then ''?'' @ query parsed else []))))"

text \<open>
  \<open>extract_links\<close> returns a set; the result here is the list of its elements in the order
  in which \<open>for link in links\<close> visits them.
\<close>

definition extract_links :: "world \<Rightarrow> string \<Rightarrow> string \<Rightarrow> string list" where
  "extract_links w html base =
     (case safe_parse_html w html of
        None \<Rightarrow> []
      | Some s \<Rightarrow>
          (let added = List.map_filter (clean_link w base) (soup_hrefs s)
           in sort_key (hash_order w added) (remdups added)))"

text \<open>\<open>check_address_in_text\<close> of the crawler at hand.\<close>

definition check_address :: "variant \<Rightarrow> string \<Rightarrow> bool \<times> string option" where
  "check_address v text =
     (case v of
        Baseline \<Rightarrow> check_address_in_text address_patterns text
      | Fast \<Rightarrow> check_address_in_text_fast quick_check juniper_patterns text)"

section \<open>\<open>check_pdf_content\<close>\<close>

text \<open>Baseline: the loop that builds \<open>text_content\<close>, skipping the pages that raise.\<close>

fun pdf_text :: "string option list \<Rightarrow> string \<Rightarrow> string" where
  "pdf_text [] text_content = text_content"
| "pdf_text (page # pages) text_content =
     (case page of
        Some t \<Rightarrow> pdf_text pages (text_content @ t)
      | None \<Rightarrow> pdf_text pages text_content)"

definition check_pdf_content_baseline ::
  "world \<Rightarrow> string \<Rightarrow> crawler \<Rightarrow> (bool \<times> string option) io \<times> crawler" where
  "check_pdf_content_baseline w url c =
     (let c' = c\<lparr>trace := trace c @ [GetPdf url]\<rparr>
      in case session_get_pdf w (length (trace c)) url of
           Ok pages \<Rightarrow> (Ok (check_address_in_text address_patterns (pdf_text pages [])), c')
         | Failed \<Rightarrow> (Ok (False, None), c')
         | Interrupt \<Rightarrow> (Interrupt, c'))"

text \<open>Fast: each page is checked on its own, and the first page with a match ends the loop.\<close>

fun scan_pages :: "string option list \<Rightarrow> bool \<times> string option" where
  "scan_pages [] = (False, None)"
| "scan_pages (page # pages) =
     (case page of
        None \<Rightarrow> scan_pages pages
      | Some page_text \<Rightarrow>
          if occurs_in quick_check page_text
          then (case check_address_in_text_fast quick_check juniper_patterns page_text of
                  (True, matched_text) \<Rightarrow> (True, matched_text)
                | (False, _) \<Rightarrow> scan_pages pages)
          else scan_pages pages)"

definition check_pdf_content_fast ::
  "world \<Rightarrow> string \<Rightarrow> crawler \<Rightarrow> (bool \<times> string option) io \<times> crawler" where
  "check_pdf_content_fast w url c =
     (let c1 = c\<lparr>trace := trace c @ [Head url]\<rparr>
      in case session_head w (length (trace c)) url of
           Interrupt \<Rightarrow> (Interrupt, c1)
         | Failed \<Rightarrow> (Ok (False, None), c1)
         | Ok content_length \<Rightarrow>
             if (case content_length of None \<Rightarrow> False | Some n \<Rightarrow> n > 50 * (1024 * 1024))
             then (Ok (False, None), c1)
             else
               (let c2 = c1\<lparr>trace := trace c1 @ [GetPdf url]\<rparr>
                in case session_get_pdf w (length (trace c1)) url of
                     Ok pages \<Rightarrow> (Ok (scan_pages pages), c2)
                   | Failed \<Rightarrow> (Ok (False, None), c2)
                   | Interrupt \<Rightarrow> (Interrupt, c2)))"

definition check_pdf_content ::
  "world \<Rightarrow> variant \<Rightarrow> string \<Rightarrow> crawler \<Rightarrow> (bool \<times> string option) io \<times> crawler" where
  "check_pdf_content w v url c =
     (case v of
        Baseline \<Rightarrow> check_pdf_content_baseline w url c
      | Fast \<Rightarrow> check_pdf_content_fast w url c)"

section \<open>\<open>record_finding\<close> and \<open>crawl_site\<close>\<close>

definition record_finding ::
  "world \<Rightarrow> string \<Rightarrow> string \<Rightarrow> string option \<Rightarrow> string \<Rightarrow> string \<Rightarrow> string \<Rightarrow> crawler
     \<Rightarrow> crawler" where
  "record_finding w url content_type matched_text title notes parent_page c =
     (let result = \<lparr>f_url = url, f_type = content_type, f_title = title,
                     f_address_found = matched_text, f_notes = notes,
                     f_parent_page = parent_page, f_timestamp = now w (length (trace c))\<rparr>;
          c1 = (if content_type = ''PDF'' then c\<lparr>found_pdfs := found_pdfs c @ [result]\<rparr>
                else c\<lparr>found_pages := found_pages c @ [result]\<rparr>)
      in append_to_csv result c1)"

text \<open>
  How a piece of the loop body ends: it runs on to the next statement, it reaches a
  \<open>continue\<close>, or \<open>KeyboardInterrupt\<close> leaves \<open>crawl_site\<close>.
\<close>

datatype flow = Next | Continue | Raised

text \<open>
  The condition of the fast file in the \<open>for link in links\<close> loop has the additional
  conjunct \<open>not self.should_skip_url(link)\<close>.
\<close>

definition passes_skip_filter :: "variant \<Rightarrow> string \<Rightarrow> bool" where
  "passes_skip_filter v link = (case v of Baseline \<Rightarrow> True | Fast \<Rightarrow> \<not> should_skip_url link)"

text \<open>The \<open>for link in links\<close> loop.\<close>

fun process_links ::
  "world \<Rightarrow> variant \<Rightarrow> string \<Rightarrow> string list \<Rightarrow> string list \<Rightarrow> crawler
     \<Rightarrow> flow \<times> string list \<times> crawler" where
  "process_links w v current_url [] url_queue c = (Next, url_queue, c)"
| "process_links w v current_url (link # links) url_queue c =
     (if is_valid_url w c link \<and> passes_skip_filter v link \<and>
         link \<notin> visited_urls c \<and> link \<notin> set url_queue
      then
        if suffix ''.pdf'' (lower link)
        then (case check_pdf_content w v link c of
                (Ok (found, matched_text), c1) \<Rightarrow>
                  process_links w v current_url links url_queue
                    (if found
                     then record_finding w link ''PDF'' matched_text [] ''PDF document (linked)''
                            current_url c1
                     else c1)
              | (_, c1) \<Rightarrow> (Raised, url_queue, c1))
        else process_links w v current_url links (url_queue @ [link]) c
      else process_links w v current_url links url_queue c)"

text \<open>The \<open>try\<close> block of the loop body.\<close>

definition crawl_page ::
  "world \<Rightarrow> variant \<Rightarrow> string \<Rightarrow> string list \<Rightarrow> crawler \<Rightarrow> flow \<times> string list \<times> crawler" where
  "crawl_page w v current_url url_queue c =
     (case get_page_content w current_url c of
        (Ok None, c1) \<Rightarrow> (Continue, url_queue, c1)
      | (Ok (Some (html_content, content_type)), c1) \<Rightarrow>
          if html_content = [] then (Continue, url_queue, c1)
          else if content_type \<noteq> [] \<and> occurs_in ''pdf'' (lower content_type)
          then (case check_pdf_content w v current_url c1 of
                  (Ok (found, matched_text), c2) \<Rightarrow>
                    (Continue, url_queue,
                     if found
                     then record_finding w current_url ''PDF'' matched_text []
                            ''PDF document (direct access)'' [] c2
                     else c2)
                | (_, c2) \<Rightarrow> (Raised, url_queue, c2))
          else
            (case safe_parse_html w html_content of
               None \<Rightarrow> (Continue, url_queue, c1)
             | Some s \<Rightarrow>
                 (case check_address v (soup_text s) of
                    (found, matched_text) \<Rightarrow>
                      process_links w v current_url (extract_links w html_content current_url)
                        url_queue
                        (if found
                         then record_finding w current_url ''HTML Page'' matched_text
                                (case soup_title s of None \<Rightarrow> ''No title'' | Some t \<Rightarrow> t)
                                ''HTML page content'' [] c1
                         else c1)))
      | (_, c1) \<Rightarrow> (Raised, url_queue, c1))"

text \<open>\<open>time.sleep\<close> of 0.5 s and 0.2 s, in milliseconds.\<close>

definition delay :: "variant \<Rightarrow> nat" where
  "delay v = (case v of Baseline \<Rightarrow> 500 | Fast \<Rightarrow> 200)"

text \<open>
  The body of the \<open>while\<close> loop for a URL that is not yet visited, from
  \<open>self.visited_urls.add(current_url)\<close> to \<open>time.sleep\<close>; \<open>url_queue\<close> is the queue after
  \<open>popleft\<close> and \<open>pages_crawled\<close> the counter after its increment.  A \<open>continue\<close> in the
  \<open>try\<close> block skips the sleep.
\<close>

definition crawl_body ::
  "world \<Rightarrow> variant \<Rightarrow> string \<Rightarrow> string list \<Rightarrow> nat \<Rightarrow> crawler
     \<Rightarrow> flow \<times> string list \<times> crawler" where
  "crawl_body w v current_url url_queue pages_crawled c =
     (let c1 = c\<lparr>visited_urls := insert current_url (visited_urls c)\<rparr>;
          c2 = (if pages_crawled mod 50 = 0
                then save_progress w pages_crawled current_url c1 else c1)
      in case crawl_page w v current_url url_queue c2 of
           (Next, q, c3) \<Rightarrow>
             (if sleep_interrupted w (length (trace c3)) then Raised else Next,
              q, c3\<lparr>trace := trace c3 @ [Sleep (delay v)]\<rparr>)
         | (fl, q, c3) \<Rightarrow> (fl, q, c3))"

text \<open>
  The \<open>while url_queue and pages_crawled < max_pages\<close> loop.  The result is how the loop
  ended (\<open>Next\<close>: the condition became false; \<open>Raised\<close>: \<open>KeyboardInterrupt\<close>), with the
  queue, the counter and the crawler at that moment.
\<close>

function crawl_loop ::
  "world \<Rightarrow> variant \<Rightarrow> nat \<Rightarrow> string list \<Rightarrow> nat \<Rightarrow> crawler
     \<Rightarrow> flow \<times> string list \<times> nat \<times> crawler" where
  "crawl_loop w v max_pages url_queue pages_crawled c =
     (if url_queue \<noteq> [] \<and> pages_crawled < max_pages
      then
        (let current_url = hd url_queue; q = tl url_queue
         in if current_url \<in> visited_urls c
            then crawl_loop w v max_pages q pages_crawled c
            else
              (case crawl_body w v current_url q (Suc pages_crawled) c of
                 (Raised, q', c') \<Rightarrow> (Raised, q', Suc pages_crawled, c')
               | (_, q', c') \<Rightarrow> crawl_loop w v max_pages q' (Suc pages_crawled) c'))
      else (Next, url_queue, pages_crawled, c))"
  by pat_completeness auto
termination
  by (relation "measures [\<lambda>(w, v, max_pages, url_queue, pages_crawled, c). max_pages - pages_crawled,
                          \<lambda>(w, v, max_pages, url_queue, pages_crawled, c). length url_queue]")
     auto

declare crawl_loop.simps [simp del]

text \<open>
  \<open>crawl_site\<close>: the queue starts with the base URL; after the loop the progress file is
  written with \<open>COMPLETED\<close> as the current URL.  A \<open>KeyboardInterrupt\<close> leaves the function
  before that.
\<close>

definition crawl_site :: "world \<Rightarrow> variant \<Rightarrow> nat \<Rightarrow> crawler \<Rightarrow> flow \<times> crawler" where
  "crawl_site w v max_pages c =
     (case crawl_loop w v max_pages [base_url c] 0 c of
        (Raised, q, pages_crawled, c') \<Rightarrow> (Raised, c')
      | (_, q, pages_crawled, c') \<Rightarrow> (Next, save_progress w pages_crawled ''COMPLETED'' c'))"

text \<open>
  \<open>SLUSDCrawler.__init__\<close> with the default base URL, on a disk with the given two files.
  \<open>urlparse(base_url).netloc\<close> of the default base URL is written out.
\<close>

definition new_crawler :: "string list list option \<Rightarrow> progress option \<Rightarrow> crawler" where
  "new_crawler csv prog =
     init_csv_file
       \<lparr>base_url = ''https://www.slusd.us'', domain = ''www.slusd.us'', visited_urls = {},
        found_pages = [], found_pdfs = [], output_file = csv, progress_file = prog,
        trace = []\<rparr>"

definition max_pages_of :: "variant \<Rightarrow> nat" where
  "max_pages_of v = (case v of Baseline \<Rightarrow> 5000 | Fast \<Rightarrow> 20000)"

text \<open>
  \<open>main\<close>: both the normal end and the \<open>except KeyboardInterrupt\<close> branch only print; the
  result tells which of the two was taken and gives the crawler, whose files are what is
  left on disk when the process exits.
\<close>

datatype ending = Summary_printed | Interrupted_by_user

definition main ::
  "world \<Rightarrow> variant \<Rightarrow> string list list option \<Rightarrow> progress option \<Rightarrow> ending \<times> crawler" where
  "main w v csv prog =
     (case crawl_site w v (max_pages_of v) (new_crawler csv prog) of
        (Raised, c) \<Rightarrow> (Interrupted_by_user, c)
      | (_, c) \<Rightarrow> (Summary_printed, c))"

section \<open>Two small web sites\<close>

text \<open>
  Concrete environments on which the functions above are evaluated.  \<open>urlparse\<close> is given
  as a table of the URLs that occur, all hrefs are absolute, every parser accepts every
  page, and nothing is interrupted.
\<close>

definition https_parts :: "string \<Rightarrow> string \<Rightarrow> url_parts" where
  "https_parts host p = \<lparr>scheme = ''https'', netloc = host, path = p, query = []\<rparr>"

definition site_urlparse :: "string \<Rightarrow> url_parts option" where
  "site_urlparse u =
     (if u = ''https://www.slusd.us'' then Some (https_parts ''www.slusd.us'' [])
      else if u = ''https://www.slusd.us/doc.pdf''
        then Some (https_parts ''www.slusd.us'' ''/doc.pdf'')
      else if u = ''https://www.slusd.us/images/map.pdf''
        then Some (https_parts ''www.slusd.us'' ''/images/map.pdf'')
      else if u = ''https://www.slusd.us/a'' then Some (https_parts ''www.slusd.us'' ''/a'')
      else if u = ''https://www.slusd.us/b'' then Some (https_parts ''www.slusd.us'' ''/b'')
      else if u = ''https://example.com/x'' then Some (https_parts ''example.com'' ''/x'')
      else None)"

definition plain_page :: "string \<Rightarrow> string \<times> string" where
  "plain_page html = (html, ''text/html; charset=utf-8'')"

text \<open>
  The first site: the root page links to \<open>doc.pdf\<close> only; the second page of the
  document names both addresses.
\<close>

definition doc_pages :: "string option list" where
  "doc_pages = [Some ''Board agenda'', Some ''Office: 835 E. 14th St. and 14735 Juniper St.'']"

definition leaf_site :: world where
  "leaf_site =
     \<lparr>session_get_page = (\<lambda>t u. if u = ''https://www.slusd.us'' then Ok (plain_page ''root'')
                                 else Failed),
      session_head = (\<lambda>t u. Ok (Some 4096)),
      session_get_pdf = (\<lambda>t u. if u = ''https://www.slusd.us/doc.pdf'' then Ok doc_pages
                                else Failed),
      sleep_interrupted = (\<lambda>t. False),
      beautiful_soup = (\<lambda>p html. if html = ''root''
         then Some \<lparr>soup_text = ''Welcome'', soup_title = Some ''Home'',
                     soup_hrefs = [''https://www.slusd.us/doc.pdf'']\<rparr>
         else None),
      urljoin = (\<lambda>base href. Some href),
      urlparse = site_urlparse,
      hash_order = (\<lambda>added link. 0),
      now = (\<lambda>t. ''2025-01-01 00:00:00'')\<rparr>"

text \<open>
  The second site: the root page links to \<open>/a\<close>, whose fetch fails, and to \<open>/b\<close>, a page
  that names both addresses and links back to the root, to \<open>/a\<close>, to itself and to another
  host.
\<close>

definition failing_site :: world where
  "failing_site =
     \<lparr>session_get_page = (\<lambda>t u. if u = ''https://www.slusd.us'' then Ok (plain_page ''root'')
                                 else if u = ''https://www.slusd.us/b'' then Ok (plain_page ''b'')
                                 else Failed),
      session_head = (\<lambda>t u. Failed),
      session_get_pdf = (\<lambda>t u. Failed),
      sleep_interrupted = (\<lambda>t. False),
      beautiful_soup = (\<lambda>p html.
         if html = ''root''
         then Some \<lparr>soup_text = ''Welcome'', soup_title = Some ''Home'',
                     soup_hrefs = [''https://www.slusd.us/a'', ''https://www.slusd.us/b'']\<rparr>
         else if html = ''b''
         then Some \<lparr>soup_text = ''Moved from 835 E. 14th St. to 14735 Juniper St.'',
                     soup_title = None,
                     soup_hrefs = [''https://www.slusd.us'', ''https://www.slusd.us/a'',
                                   ''https://www.slusd.us/b'', ''https://example.com/x'']\<rparr>
         else None),
      urljoin = (\<lambda>base href. Some href),
      urlparse = site_urlparse,
      hash_order = (\<lambda>added link. 0),
      now = (\<lambda>t. ''2025-01-01 00:00:00'')\<rparr>"

text \<open>
  The baseline crawler on the second site, started on a disk without files: the crawler
  after the body of the loop has run for the root page, and when the loop has ended.
\<close>

definition failing_site_after_root :: crawler where
  "failing_site_after_root =
    \<lparr>base_url = ''https://www.slusd.us'', domain = ''www.slusd.us'',
     visited_urls = {''https://www.slusd.us''},
     found_pages = [], found_pdfs = [],
     output_file = Some [fieldnames],
     progress_file = None,
     trace = [Get ''https://www.slusd.us'', Sleep 500]\<rparr>"

definition failing_site_end :: crawler where
  "failing_site_end =
    \<lparr>base_url = ''https://www.slusd.us'', domain = ''www.slusd.us'',
     visited_urls = {''https://www.slusd.us/b'', ''https://www.slusd.us/a'',
                     ''https://www.slusd.us''},
     found_pages =
       [\<lparr>f_url = ''https://www.slusd.us/b'', f_type = ''HTML Page'', f_title = ''No title'',
         f_address_found = Some ''835 E. 14th St.'', f_notes = ''HTML page content'',
         f_parent_page = [], f_timestamp = ''2025-01-01 00:00:00''\<rparr>],
     found_pdfs = [],
     output_file =
       Some [fieldnames,
             [''https://www.slusd.us/b'', ''HTML Page'', ''No title'', ''835 E. 14th St.'',
              ''HTML page content'', [], ''2025-01-01 00:00:00'']],
     progress_file = None,
     trace = [Get ''https://www.slusd.us'', Sleep 500, Get ''https://www.slusd.us/a'',
              Get ''https://www.slusd.us/b'', Sleep 500]\<rparr>"

section \<open>Reading the trace\<close>

text \<open>The URLs of the page requests in a trace: \<open>get_page_content\<close> is called once for
  every URL that the loop processes, so these are the processed URLs in order.\<close>

fun page_gets :: "event list \<Rightarrow> string list" where
  "page_gets [] = []"
| "page_gets (Get u # es) = u # page_gets es"
| "page_gets (e # es) = page_gets es"

text \<open>The second site with an interrupt: \<open>KeyboardInterrupt\<close> arrives during the fourth
  call of the run, the page request for \<open>/b\<close>.\<close>

definition interrupted_site :: world where
  "interrupted_site =
     failing_site\<lparr>session_get_page :=
       (\<lambda>t u. if t = 3 then Interrupt else session_get_page failing_site t u)\<rparr>"

definition interrupted_site_end :: crawler where
  "interrupted_site_end =
    \<lparr>base_url = ''https://www.slusd.us'', domain = ''www.slusd.us'',
     visited_urls = {''https://www.slusd.us/b'', ''https://www.slusd.us/a'',
                     ''https://www.slusd.us''},
     found_pages = [], found_pdfs = [],
     output_file = Some [fieldnames],
     progress_file = None,
     trace = [Get ''https://www.slusd.us'', Sleep 500, Get ''https://www.slusd.us/a'',
              Get ''https://www.slusd.us/b'']\<rparr>"

text \<open>
  Two documents: one of ten pages whose pages 3 and 7 cannot be extracted, and one whose
  address runs over the page break.
\<close>

definition ten_pages :: "string option list" where
  "ten_pages =
     [Some ''one '', Some ''two '', None, Some ''four '', Some ''five '', Some ''six '', None,
      Some ''835 E. 14th St. and 14735 Juniper St. '', Some ''nine '', Some ''ten'']"

definition split_pages :: "string option list" where
  "split_pages = [Some ''Our office: 14735'', Some '' Juniper St., San Leandro'']"

definition pdf_site :: "string option list \<Rightarrow> world" where
  "pdf_site pages = leaf_site\<lparr>session_get_pdf := (\<lambda>t u. Ok pages)\<rparr>"

text \<open>
  Running \<open>main\<close> of one of the two files several times, each time in another
  environment and on the files that the run before has left.
\<close>

fun run_repeatedly ::
  "variant \<Rightarrow> world list \<Rightarrow> string list list option \<Rightarrow> progress option
     \<Rightarrow> string list list option \<times> progress option" where
  "run_repeatedly v [] csv prog = (csv, prog)"
| "run_repeatedly v (w # ws) csv prog =
     (case main w v csv prog of
        (e, c) \<Rightarrow> run_repeatedly v ws (output_file c) (progress_file c))"

text \<open>
  The first site with a document of 60 MB: the answer to the size probe is above the ceiling
  of the fast crawler.  \<open>oversize_site_end\<close> is the fast crawler after its run there.
\<close>

definition oversize_site :: world where
  "oversize_site = leaf_site\<lparr>session_head := (\<lambda>t u. Ok (Some 60000000))\<rparr>"

definition oversize_site_end :: crawler where
  "oversize_site_end =
    \<lparr>base_url = ''https://www.slusd.us'', domain = ''www.slusd.us'',
     visited_urls = {''https://www.slusd.us''},
     found_pages = [], found_pdfs = [],
     output_file = Some [fieldnames],
     progress_file =
       Some \<lparr>p_pages_crawled = 1, p_current_url = ''COMPLETED'', p_found_pages = 0,
             p_found_pdfs = 0, p_last_update = ''2025-01-01 00:00:00''\<rparr>,
     trace = [Get ''https://www.slusd.us'', Head ''https://www.slusd.us/doc.pdf'',
              Sleep 200]\<rparr>"

text \<open>The baseline crawler when its loop has ended on the first site.\<close>

definition leaf_site_end :: crawler where
  "leaf_site_end =
    \<lparr>base_url = ''https://www.slusd.us'', domain = ''www.slusd.us'',
     visited_urls = {''https://www.slusd.us''},
     found_pages = [],
     found_pdfs =
       [\<lparr>f_url = ''https://www.slusd.us/doc.pdf'', f_type = ''PDF'', f_title = [],
         f_address_found = Some ''835 E. 14th St.'', f_notes = ''PDF document (linked)'',
         f_parent_page = ''https://www.slusd.us'', f_timestamp = ''2025-01-01 00:00:00''\<rparr>],
     output_file =
       Some [fieldnames,
             [''https://www.slusd.us/doc.pdf'', ''PDF'', [], ''835 E. 14th St.'',
              ''PDF document (linked)'', ''https://www.slusd.us'', ''2025-01-01 00:00:00'']],
     progress_file = None,
     trace = [Get ''https://www.slusd.us'', GetPdf ''https://www.slusd.us/doc.pdf'',
              Sleep 500]\<rparr>"

section \<open>Properties of the matcher\<close>

lemma rmatch_Star_cases:
  assumes "r \<in> set (rmatch (Star a) s)"
  shows "r = s \<or> (\<exists>r1 \<in> set (rmatch a s). length r1 < length s \<and> r \<in> set (rmatch (Star a) r1))"
proof -
  have eq: "rmatch (Star a) s =
     concat (map (rmatch (Star a)) (filter (\<lambda>r. length r < length s) (rmatch a s))) @ [s]"
    by (rule rmatch.simps(7))
  from assms have "r \<in> set (concat (map (rmatch (Star a)) (filter (\<lambda>r. length r < length s) (rmatch a s))) @ [s])"
    by (subst (asm) eq)
  then show ?thesis by auto
qed

lemma rmatch_suffix: "r \<in> set (rmatch p s) \<Longrightarrow> \<exists>m. s = m @ r"
proof (induction p s arbitrary: r rule: rmatch.induct)
  case (4 a b s)
  then obtain r1 where r1: "r1 \<in> set (rmatch a s)" and r: "r \<in> set (rmatch b r1)"
    by auto
  from "4.IH"(1)[OF r1] obtain m1 where "s = m1 @ r1" by blast
  moreover from "4.IH"(2)[OF r1 r] obtain m2 where "r1 = m2 @ r" by blast
  ultimately have "s = (m1 @ m2) @ r" by simp
  then show ?case by blast
next
  case (7 a s)
  from rmatch_Star_cases[OF "7.prems"] show ?case
  proof
    assume "r = s"
    then show ?thesis by simp
  next
    assume "\<exists>r1 \<in> set (rmatch a s). length r1 < length s \<and> r \<in> set (rmatch (Star a) r1)"
    then obtain r1 where r1: "r1 \<in> set (rmatch a s)" and len: "length r1 < length s"
      and r: "r \<in> set (rmatch (Star a) r1)"
      by blast
    from "7.IH"(1)[OF r1] obtain m1 where "s = m1 @ r1" by blast
    moreover have "r1 \<in> set (filter (\<lambda>r. length r < length s) (rmatch a s))"
      using r1 len by simp
    from "7.IH"(2)[OF this r] obtain m2 where "r1 = m2 @ r" by blast
    ultimately have "s = (m1 @ m2) @ r" by simp
    then show ?thesis by blast
  qed
qed (auto split: list.splits if_splits)


lemma seqs_Cons: "seqs (a # rs) = Seq a (seqs rs)"
  by (simp add: seqs_def)

lemma str_Cons: "str (c # cs) = Seq (Lit c) (str cs)"
  by (simp add: str_def)

lemma str_Nil: "str [] = Eps"
  by (simp add: str_def)

lemma lower_char_plain: 
  assumes p: "plain c" and e: "lower_char x = lower_char c"
  shows "x = c"
proof -
  from p have c: "lower_char c = c"
    by (auto simp: plain_def lower_char_def Let_def)
  show "x = c"
  proof (cases "lower_char x = x")
    case True
    with e c show ?thesis by simp
  next
    case False
    then have up: "(65 \<le> (of_char x :: nat) \<and> (of_char x :: nat) \<le> 90) \<or>
        (192 \<le> (of_char x :: nat) \<and> (of_char x :: nat) \<le> 222)"
      and lx: "lower_char x = char_of ((of_char x :: nat) + 32)"
      by (auto simp: lower_char_def Let_def split: if_splits)
    from lx e c have "c = char_of ((of_char x :: nat) + 32)" by simp
    then have "(of_char c :: nat) = ((of_char x :: nat) + 32) mod 256" by simp
    with up have "(of_char c :: nat) = of_char x + 32" by auto
    with up p show ?thesis by (auto simp: plain_def Let_def)
  qed
qed

lemma rmatch_str_plain:
  "\<forall>c \<in> set l. plain c \<Longrightarrow> r \<in> set (rmatch (Seq (str l) q) s) \<Longrightarrow>
     \<exists>t. s = l @ t \<and> r \<in> set (rmatch q t)"
proof (induction l arbitrary: s)
  case Nil
  then show ?case by (simp add: str_Nil)
next
  case (Cons c l)
  from Cons.prems(2) obtain x xs where s: "s = x # xs" and x: "lower_char x = lower_char c"
    and r: "r \<in> set (rmatch (Seq (str l) q) xs)"
    by (auto simp: str_Cons split: list.splits if_splits)
  from Cons.prems(1) x have "x = c" by (simp add: lower_char_plain)
  moreover from Cons.IH[OF _ r] Cons.prems(1) obtain t where "xs = l @ t" "r \<in> set (rmatch q t)"
    by auto
  ultimately show ?case using s by simp
qed

lemma match_here_Some:
  assumes "match_here p s = Some m"
  shows "\<exists>rest. s = m @ rest \<and> rest \<in> set (rmatch p s)"
proof -
  from assms obtain rest rs where rs: "rmatch p s = rest # rs"
    and m: "m = take (length s - length rest) s"
    by (auto simp: match_here_def split: list.splits)
  from rs have mem: "rest \<in> set (rmatch p s)" by simp
  from rmatch_suffix[OF mem] obtain m' where "s = m' @ rest" by blast
  with m have "s = m @ rest" by simp
  with mem show ?thesis by blast
qed

lemma search_Some:
  "search p T = Some m \<Longrightarrow> \<exists>pre suf. T = pre @ m @ suf \<and> suf \<in> set (rmatch p (m @ suf))"
proof (induction T)
  case Nil
  then have "match_here p [] = Some m" by simp
  from match_here_Some[OF this] show ?case by fastforce
next
  case (Cons x xs)
  show ?case
  proof (cases "match_here p (x # xs)")
    case None
    with Cons.prems have "search p xs = Some m" by simp
    from Cons.IH[OF this] obtain pre suf where "xs = pre @ m @ suf" "suf \<in> set (rmatch p (m @ suf))"
      by blast
    then have "x # xs = (x # pre) @ m @ suf \<and> suf \<in> set (rmatch p (m @ suf))" by simp
    then show ?thesis by blast
  next
    case (Some m')
    with Cons.prems have "match_here p (x # xs) = Some m" by simp
    from match_here_Some[OF this] obtain rest where "x # xs = m @ rest" "rest \<in> set (rmatch p (x # xs))"
      by blast
    then have "x # xs = [] @ m @ rest \<and> rest \<in> set (rmatch p (m @ rest))" by simp
    then show ?thesis by blast
  qed
qed

lemma first_match_True:
  "first_match ps T = (True, mt) \<Longrightarrow>
     \<exists>i m. i < length ps \<and> mt = Some m \<and> search (ps ! i) T = Some m \<and> (\<forall>j<i. search (ps ! j) T = None)"
proof (induction ps)
  case Nil
  then show ?case by simp
next
  case (Cons p ps)
  show ?case
  proof (cases "search p T")
    case None
    with Cons.prems have "first_match ps T = (True, mt)" by simp
    from Cons.IH[OF this] obtain i m where i: "i < length ps" "mt = Some m" "search (ps ! i) T = Some m"
      "\<forall>j<i. search (ps ! j) T = None" by blast
    have "\<forall>j<Suc i. search ((p # ps) ! j) T = None"
    proof (intro allI impI)
      fix j assume "j < Suc i"
      then show "search ((p # ps) ! j) T = None" using None i(4) by (cases j) auto
    qed
    with i have "Suc i < length (p # ps) \<and> mt = Some m \<and> search ((p # ps) ! Suc i) T = Some m \<and>
       (\<forall>j<Suc i. search ((p # ps) ! j) T = None)" by simp
    then show ?thesis by blast
  next
    case (Some m)
    with Cons.prems have "mt = Some m" by simp
    with Some have "0 < length (p # ps) \<and> mt = Some m \<and> search ((p # ps) ! 0) T = Some m \<and>
       (\<forall>j<0. search ((p # ps) ! j) T = None)" by simp
    then show ?thesis by blast
  qed
qed

lemma first_match_at:
  "i < length ps \<Longrightarrow> search (ps ! i) T = Some m \<Longrightarrow> \<forall>j<i. search (ps ! j) T = None \<Longrightarrow>
     first_match ps T = (True, Some m)"
proof (induction ps arbitrary: i)
  case Nil
  then show ?case by simp
next
  case (Cons p ps)
  show ?case
  proof (cases i)
    case 0
    with Cons.prems show ?thesis by simp
  next
    case (Suc k)
    with Cons.prems have k: "k < length ps" "search (ps ! k) T = Some m" by simp_all
    from Cons.prems(3) Suc have "search ((p # ps) ! 0) T = None" by blast
    then have p: "search p T = None" by simp
    have "\<forall>j<k. search (ps ! j) T = None"
    proof (intro allI impI)
      fix j assume "j < k"
      then have "Suc j < i" using Suc by simp
      with Cons.prems(3) have "search ((p # ps) ! Suc j) T = None" by blast
      then show "search (ps ! j) T = None" by simp
    qed
    from Cons.IH[OF k this] p show ?thesis by simp
  qed
qed

lemma occurs_in_iff: "occurs_in n h \<longleftrightarrow> (\<exists>pre suf. h = pre @ n @ suf)"
proof (induction h)
  case Nil
  then show ?case by auto
next
  case (Cons y ys)
  show ?case
  proof
    assume "occurs_in n (y # ys)"
    then consider "prefix n (y # ys)" | "occurs_in n ys" by auto
    then show "\<exists>pre suf. y # ys = pre @ n @ suf"
    proof cases
      case 1
      then obtain suf where "y # ys = n @ suf" by (auto simp: prefix_def)
      then have "y # ys = [] @ n @ suf" by simp
      then show ?thesis by blast
    next
      case 2
      with Cons.IH obtain pre suf where "ys = pre @ n @ suf" by blast
      then have "y # ys = (y # pre) @ n @ suf" by simp
      then show ?thesis by blast
    qed
  next
    assume "\<exists>pre suf. y # ys = pre @ n @ suf"
    then obtain pre suf where e: "y # ys = pre @ n @ suf" by blast
    show "occurs_in n (y # ys)"
    proof (cases pre)
      case Nil
      with e have "prefix n (y # ys)" by (simp add: prefix_def)
      then show ?thesis by simp
    next
      case (Cons a pre')
      with e have "ys = pre' @ n @ suf" by simp
      with Cons.IH have "occurs_in n ys" by blast
      then show ?thesis by simp
    qed
  qed
qed

lemma address_patterns_form: "p \<in> set address_patterns \<Longrightarrow> \<exists>q. p = Seq (str ''835'') q"
  by (auto simp: address_patterns_def seqs_Cons)

lemma juniper_patterns_form: "p \<in> set juniper_patterns \<Longrightarrow> \<exists>q. p = Seq (str ''14735'') q"
  by (auto simp: juniper_patterns_def seqs_Cons)

lemma plain_835: "\<forall>c \<in> set ''835''. plain c"
  by (simp add: plain_def)

lemma plain_14735: "\<forall>c \<in> set ''14735''. plain c"
  by (simp add: plain_def)

lemma literal_prefix:
  assumes pl: "\<forall>c \<in> set l. plain c" and r: "suf \<in> set (rmatch (Seq (str l) q) (m @ suf))"
  shows "prefix l m"
proof -
  from rmatch_str_plain[OF pl r] obtain t where t: "m @ suf = l @ t" "suf \<in> set (rmatch q t)"
    by blast
  from rmatch_suffix[OF t(2)] obtain m' where "t = m' @ suf" by blast
  with t(1) have "m = l @ m'" by simp
  then show ?thesis by simp
qed

lemma search_address:
  assumes i: "i < length address_patterns" and s: "search (address_patterns ! i) T = Some m"
  shows "\<exists>pre suf. T = pre @ m @ suf \<and> suf \<in> set (rmatch (address_patterns ! i) (m @ suf)) \<and>
           prefix ''835'' m"
proof -
  from search_Some[OF s] obtain pre suf where T: "T = pre @ m @ suf"
    and r: "suf \<in> set (rmatch (address_patterns ! i) (m @ suf))" by blast
  from i have "address_patterns ! i \<in> set address_patterns" by simp
  from address_patterns_form[OF this] obtain q where "address_patterns ! i = Seq (str ''835'') q"
    by blast
  with r literal_prefix[OF plain_835, of suf q m] have "prefix ''835'' m" by simp
  with T r show ?thesis by blast
qed

lemma search_juniper:
  assumes i: "i < length juniper_patterns" and s: "search (juniper_patterns ! i) T = Some m"
  shows "\<exists>pre suf. T = pre @ m @ suf \<and> suf \<in> set (rmatch (juniper_patterns ! i) (m @ suf)) \<and>
           prefix ''14735'' m"
proof -
  from search_Some[OF s] obtain pre suf where T: "T = pre @ m @ suf"
    and r: "suf \<in> set (rmatch (juniper_patterns ! i) (m @ suf))" by blast
  from i have "juniper_patterns ! i \<in> set juniper_patterns" by simp
  from juniper_patterns_form[OF this] obtain q where "juniper_patterns ! i = Seq (str ''14735'') q"
    by blast
  with r literal_prefix[OF plain_14735, of suf q m] have "prefix ''14735'' m" by simp
  with T r show ?thesis by blast
qed

lemma prefix_occurs: "prefix l m \<Longrightarrow> occurs_in l (pre @ m @ suf)"
proof -
  assume "prefix l m"
  then obtain m' where "m = l @ m'" by (auto simp: prefix_def)
  then have "pre @ m @ suf = pre @ l @ (m' @ suf)" by simp
  then show ?thesis unfolding occurs_in_iff by blast
qed

lemma juniper_match_has_literal:
  assumes "first_match juniper_patterns T = (True, mt)"
  shows "occurs_in quick_check T"
proof -
  from first_match_True[OF assms] obtain i m where i: "i < length juniper_patterns"
    and s: "search (juniper_patterns ! i) T = Some m" by blast
  from search_juniper[OF i s] obtain pre suf where "T = pre @ m @ suf" "prefix ''14735'' m"
    by blast
  then show ?thesis by (simp add: quick_check_def prefix_occurs)
qed

lemma first_match_cases: "first_match ps T = (False, None) \<or> (\<exists>m. first_match ps T = (True, Some m))"
  by (induction ps) (auto split: option.splits)

text \<open>
  Claim C1 (prefilter transparency).  For every text, every literal and every pattern list:
  when the literal occurs in the text, the matcher with the literal pre-check returns what the
  baseline matcher (all patterns in order, no pre-check) returns; when the literal does not
  occur, it returns not-found.  With the literal and the patterns of the fast crawler the two
  matchers agree on every text.
\<close>

theorem prefilter_transparent:
  "(occurs_in quick T \<longrightarrow>
      check_address_in_text_fast quick pats T = check_address_in_text pats T) \<and>
   (\<not> occurs_in quick T \<longrightarrow> check_address_in_text_fast quick pats T = (False, None)) \<and>
   check_address_in_text_fast quick_check juniper_patterns T =
     check_address_in_text juniper_patterns T"
proof (intro conjI impI)
  assume "occurs_in quick T"
  then show "check_address_in_text_fast quick pats T = check_address_in_text pats T"
    by (simp add: check_address_in_text_fast_def check_address_in_text_def)
next
  assume "\<not> occurs_in quick T"
  then show "check_address_in_text_fast quick pats T = (False, None)"
    by (simp add: check_address_in_text_fast_def)
next
  show "check_address_in_text_fast quick_check juniper_patterns T =
     check_address_in_text juniper_patterns T"
  proof (cases "occurs_in quick_check T")
    case True
    then show ?thesis
      by (simp add: check_address_in_text_fast_def check_address_in_text_def)
  next
    case False
    have "first_match juniper_patterns T = (False, None)"
      using first_match_cases[of juniper_patterns T] juniper_match_has_literal[of T] False
      by auto
    with False show ?thesis
      by (simp add: check_address_in_text_fast_def check_address_in_text_def)
  qed
qed

theorem prefilter_transparent_witness:
  "occurs_in ''14735'' ''at 14735 N. Juniper St.'' \<and>
   check_address_in_text_fast ''14735'' juniper_patterns ''at 14735 N. Juniper St.'' =
     check_address_in_text juniper_patterns ''at 14735 N. Juniper St.'' \<and>
   check_address_in_text juniper_patterns ''at 14735 N. Juniper St.'' =
     (True, Some ''14735 N. Juniper St.'') \<and>
   \<not> occurs_in ''14735'' ''at 1473 Juniper St.'' \<and>
   check_address_in_text_fast ''14735'' juniper_patterns ''at 1473 Juniper St.'' = (False, None)"
proof -
  have a: "occurs_in ''14735'' ''at 14735 N. Juniper St.''" by simp
  have b: "\<not> occurs_in ''14735'' ''at 1473 Juniper St.''" by simp
  have c: "check_address_in_text juniper_patterns ''at 14735 N. Juniper St.'' =
     (True, Some ''14735 N. Juniper St.'')" by code_simp
  from a b c prefilter_transparent[of "''14735''" "''at 14735 N. Juniper St.''" juniper_patterns]
    prefilter_transparent[of "''14735''" "''at 1473 Juniper St.''" juniper_patterns]
  show ?thesis by blast
qed

lemma first_match_take:
  assumes i: "i < length ps" and s: "search (ps ! i) T = Some m"
    and n: "\<forall>j<i. search (ps ! j) T = None"
  shows "first_match (take (Suc i) ps @ later) T = (True, Some m)"
proof (rule first_match_at[where i = i])
  from i show "i < length (take (Suc i) ps @ later)" by simp
  from i s show "search ((take (Suc i) ps @ later) ! i) T = Some m"
    by (simp add: nth_append)
  show "\<forall>j<i. search ((take (Suc i) ps @ later) ! j) T = None"
  proof (intro allI impI)
    fix j assume "j < i"
    with i n show "search ((take (Suc i) ps @ later) ! j) T = None"
      by (simp add: nth_append)
  qed
qed

text \<open>
  Claim C3 (pattern priority).  Let pattern number \<open>i\<close> of the ordered pattern set match the
  text with matched text \<open>m\<close> while no pattern of lower index matches.  Then
  \<open>check_address_in_text\<close> returns \<open>(True, m)\<close>, whatever the patterns after \<open>i\<close> are (they
  may be replaced by any list \<open>later\<close>): for the baseline crawler and its patterns, and for
  the fast crawler with its patterns and its literal pre-check.
\<close>

theorem pattern_priority:
  "(i < length address_patterns \<and> search (address_patterns ! i) T = Some m \<and>
      (\<forall>j<i. search (address_patterns ! j) T = None) \<longrightarrow>
        check_address_in_text address_patterns T = (True, Some m) \<and>
        check_address_in_text (take (Suc i) address_patterns @ later) T = (True, Some m)) \<and>
   (i < length juniper_patterns \<and> search (juniper_patterns ! i) T = Some m \<and>
      (\<forall>j<i. search (juniper_patterns ! j) T = None) \<longrightarrow>
        check_address_in_text_fast quick_check juniper_patterns T = (True, Some m) \<and>
        check_address_in_text_fast quick_check (take (Suc i) juniper_patterns @ later) T =
          (True, Some m))"
proof (intro conjI impI)
  assume h: "i < length address_patterns \<and> search (address_patterns ! i) T = Some m \<and>
      (\<forall>j<i. search (address_patterns ! j) T = None)"
  then have i: "i < length address_patterns" and s: "search (address_patterns ! i) T = Some m"
    and n: "\<forall>j<i. search (address_patterns ! j) T = None" by simp_all
  from search_address[OF i s] have ne: "T \<noteq> []" by (auto simp: prefix_def)
  from first_match_at[OF i s n] ne
  show "check_address_in_text address_patterns T = (True, Some m)"
    by (simp add: check_address_in_text_def)
  from first_match_take[OF i s n] ne
  show "check_address_in_text (take (Suc i) address_patterns @ later) T = (True, Some m)"
    by (simp add: check_address_in_text_def)
next
  assume h: "i < length juniper_patterns \<and> search (juniper_patterns ! i) T = Some m \<and>
      (\<forall>j<i. search (juniper_patterns ! j) T = None)"
  then have i: "i < length juniper_patterns" and s: "search (juniper_patterns ! i) T = Some m"
    and n: "\<forall>j<i. search (juniper_patterns ! j) T = None" by simp_all
  from search_juniper[OF i s] obtain pre suf where T: "T = pre @ m @ suf"
    and p: "prefix ''14735'' m" by blast
  from T p have ne: "T \<noteq> []" by (auto simp: prefix_def)
  from T p have oc: "occurs_in quick_check T" by (simp add: quick_check_def prefix_occurs)
  from first_match_at[OF i s n] ne oc
  show "check_address_in_text_fast quick_check juniper_patterns T = (True, Some m)"
    by (simp add: check_address_in_text_fast_def)
  from first_match_take[OF i s n] ne oc
  show "check_address_in_text_fast quick_check (take (Suc i) juniper_patterns @ later) T =
          (True, Some m)"
    by (simp add: check_address_in_text_fast_def)
qed

theorem pattern_priority_witness:
  "search (address_patterns ! 2) ''835 E 14 St'' = Some ''835 E 14 St'' \<and>
   search (address_patterns ! 6) ''835 E 14 St'' = Some ''835 E 14'' \<and>
   search (address_patterns ! 0) ''835 E 14 St'' = None \<and>
   search (address_patterns ! 1) ''835 E 14 St'' = None \<and>
   check_address_in_text address_patterns ''835 E 14 St'' = (True, Some ''835 E 14 St'') \<and>
   check_address_in_text (take (Suc 2) address_patterns @ [Eps]) ''835 E 14 St'' =
     (True, Some ''835 E 14 St'') \<and>
   search (juniper_patterns ! 4) ''14735 N Juniper St'' = Some ''14735 N Juniper St'' \<and>
   search (juniper_patterns ! 6) ''14735 N Juniper St'' = Some ''14735 N Juniper'' \<and>
   search (juniper_patterns ! 0) ''14735 N Juniper St'' = None \<and>
   search (juniper_patterns ! 1) ''14735 N Juniper St'' = None \<and>
   search (juniper_patterns ! 2) ''14735 N Juniper St'' = None \<and>
   search (juniper_patterns ! 3) ''14735 N Juniper St'' = None \<and>
   check_address_in_text_fast quick_check juniper_patterns ''14735 N Juniper St'' =
     (True, Some ''14735 N Juniper St'') \<and>
   check_address_in_text_fast quick_check (take (Suc 4) juniper_patterns @ [Eps])
     ''14735 N Juniper St'' = (True, Some ''14735 N Juniper St'')"
proof -
  have a2: "search (address_patterns ! 2) ''835 E 14 St'' = Some ''835 E 14 St''"
    by code_simp
  have a6: "search (address_patterns ! 6) ''835 E 14 St'' = Some ''835 E 14''"
    by code_simp
  have a0: "search (address_patterns ! 0) ''835 E 14 St'' = None" by code_simp
  have a1: "search (address_patterns ! 1) ''835 E 14 St'' = None" by code_simp
  have an: "\<forall>j<2. search (address_patterns ! j) ''835 E 14 St'' = None"
  proof (intro allI impI)
    fix j :: nat assume "j < 2"
    then consider "j = 0" | "j = 1" by linarith
    then show "search (address_patterns ! j) ''835 E 14 St'' = None"
      using a0 a1 by cases simp_all
  qed
  have j4: "search (juniper_patterns ! 4) ''14735 N Juniper St'' = Some ''14735 N Juniper St''"
    by code_simp
  have j6: "search (juniper_patterns ! 6) ''14735 N Juniper St'' = Some ''14735 N Juniper''"
    by code_simp
  have j0: "search (juniper_patterns ! 0) ''14735 N Juniper St'' = None" by code_simp
  have j1: "search (juniper_patterns ! 1) ''14735 N Juniper St'' = None" by code_simp
  have j2: "search (juniper_patterns ! 2) ''14735 N Juniper St'' = None" by code_simp
  have j3: "search (juniper_patterns ! 3) ''14735 N Juniper St'' = None" by code_simp
  have jn: "\<forall>j<4. search (juniper_patterns ! j) ''14735 N Juniper St'' = None"
  proof (intro allI impI)
    fix j :: nat assume "j < 4"
    then consider "j = 0" | "j = 1" | "j = 2" | "j = 3" by linarith
    then show "search (juniper_patterns ! j) ''14735 N Juniper St'' = None"
      using j0 j1 j2 j3 by cases simp_all
  qed
  have la: "(2::nat) < length address_patterns" by (simp add: address_patterns_def)
  have lj: "(4::nat) < length juniper_patterns" by (simp add: juniper_patterns_def)
  from pattern_priority[of 2 "''835 E 14 St''" "''835 E 14 St''" "[Eps]"] a2 an la
  have ra: "check_address_in_text address_patterns ''835 E 14 St'' =
          (True, Some ''835 E 14 St'') \<and>
        check_address_in_text (take (Suc 2) address_patterns @ [Eps]) ''835 E 14 St'' =
          (True, Some ''835 E 14 St'')"
    by blast
  from pattern_priority[of 4 "''14735 N Juniper St''" "''14735 N Juniper St''" "[Eps]"] j4 jn lj
  have rj: "check_address_in_text_fast quick_check juniper_patterns ''14735 N Juniper St'' =
     (True, Some ''14735 N Juniper St'') \<and>
   check_address_in_text_fast quick_check (take (Suc 4) juniper_patterns @ [Eps])
     ''14735 N Juniper St'' = (True, Some ''14735 N Juniper St'')"
    by blast
  from a2 a6 a0 a1 j4 j6 j0 j1 j2 j3 ra rj show ?thesis by blast
qed

text \<open>
  Claim C10 (match-result soundness).  Whenever \<open>check_address_in_text\<close> returns found =
  True, the matched text \<open>m\<close> is present, is not empty, occurs in the text (\<open>T = pre @ m @ suf\<close>),
  is what one of the configured patterns, \<open>pattern.search(T)\<close>, consumes at that place, and
  begins with (so contains) the house number; hence the house number occurs in the text and
  the pre-check of the fast crawler cannot suppress a match.
\<close>

theorem match_result_sound:
  "(check_address_in_text address_patterns T = (True, mt) \<longrightarrow>
      (\<exists>m pre suf i. mt = Some m \<and> m \<noteq> [] \<and> T = pre @ m @ suf \<and>
         i < length address_patterns \<and> search (address_patterns ! i) T = Some m \<and>
         suf \<in> set (rmatch (address_patterns ! i) (m @ suf)) \<and>
         prefix ''835'' m \<and> occurs_in ''835'' m)) \<and>
   (check_address_in_text_fast quick_check juniper_patterns T = (True, mt) \<longrightarrow>
      (\<exists>m pre suf i. mt = Some m \<and> m \<noteq> [] \<and> T = pre @ m @ suf \<and>
         i < length juniper_patterns \<and> search (juniper_patterns ! i) T = Some m \<and>
         suf \<in> set (rmatch (juniper_patterns ! i) (m @ suf)) \<and>
         prefix quick_check m \<and> occurs_in quick_check m \<and> occurs_in quick_check T))"
proof (intro conjI impI)
  assume "check_address_in_text address_patterns T = (True, mt)"
  then have "first_match address_patterns T = (True, mt)"
    by (simp add: check_address_in_text_def split: if_splits)
  from first_match_True[OF this] obtain i m where i: "i < length address_patterns"
    and mt: "mt = Some m" and s: "search (address_patterns ! i) T = Some m" by blast
  from search_address[OF i s] obtain pre suf where T: "T = pre @ m @ suf"
    and r: "suf \<in> set (rmatch (address_patterns ! i) (m @ suf))" and p: "prefix ''835'' m"
    by blast
  from p have ne: "m \<noteq> []" by (auto simp: prefix_def)
  from prefix_occurs[OF p, of "[]" "[]"] have oc: "occurs_in ''835'' m" by simp
  from mt ne T i s r p oc
  show "\<exists>m pre suf i. mt = Some m \<and> m \<noteq> [] \<and> T = pre @ m @ suf \<and>
         i < length address_patterns \<and> search (address_patterns ! i) T = Some m \<and>
         suf \<in> set (rmatch (address_patterns ! i) (m @ suf)) \<and>
         prefix ''835'' m \<and> occurs_in ''835'' m"
    by blast
next
  assume "check_address_in_text_fast quick_check juniper_patterns T = (True, mt)"
  then have "first_match juniper_patterns T = (True, mt)"
    by (simp add: check_address_in_text_fast_def split: if_splits)
  from first_match_True[OF this] obtain i m where i: "i < length juniper_patterns"
    and mt: "mt = Some m" and s: "search (juniper_patterns ! i) T = Some m" by blast
  from search_juniper[OF i s] obtain pre suf where T: "T = pre @ m @ suf"
    and r: "suf \<in> set (rmatch (juniper_patterns ! i) (m @ suf))" and p: "prefix ''14735'' m"
    by blast
  from p have ne: "m \<noteq> []" by (auto simp: prefix_def)
  from p have pq: "prefix quick_check m" by (simp add: quick_check_def)
  from prefix_occurs[OF pq, of "[]" "[]"] have oc: "occurs_in quick_check m" by simp
  from prefix_occurs[OF pq, of pre suf] T have ocT: "occurs_in quick_check T" by simp
  from mt ne T i s r pq oc ocT
  show "\<exists>m pre suf i. mt = Some m \<and> m \<noteq> [] \<and> T = pre @ m @ suf \<and>
         i < length juniper_patterns \<and> search (juniper_patterns ! i) T = Some m \<and>
         suf \<in> set (rmatch (juniper_patterns ! i) (m @ suf)) \<and>
         prefix quick_check m \<and> occurs_in quick_check m \<and> occurs_in quick_check T"
    by blast
qed

theorem match_result_sound_witness:
  "check_address_in_text address_patterns ''x 835 e 14 y'' = (True, Some ''835 e 14'') \<and>
   (\<exists>m pre suf i. Some ''835 e 14'' = Some m \<and> m \<noteq> [] \<and> ''x 835 e 14 y'' = pre @ m @ suf \<and>
         i < length address_patterns \<and> search (address_patterns ! i) ''x 835 e 14 y'' = Some m \<and>
         suf \<in> set (rmatch (address_patterns ! i) (m @ suf)) \<and>
         prefix ''835'' m \<and> occurs_in ''835'' m) \<and>
   check_address_in_text_fast quick_check juniper_patterns ''at 14735 N. Juniper St.'' =
     (True, Some ''14735 N. Juniper St.'') \<and>
   (\<exists>m pre suf i. Some ''14735 N. Juniper St.'' = Some m \<and> m \<noteq> [] \<and>
         ''at 14735 N. Juniper St.'' = pre @ m @ suf \<and>
         i < length juniper_patterns \<and>
         search (juniper_patterns ! i) ''at 14735 N. Juniper St.'' = Some m \<and>
         suf \<in> set (rmatch (juniper_patterns ! i) (m @ suf)) \<and>
         prefix quick_check m \<and> occurs_in quick_check m \<and>
         occurs_in quick_check ''at 14735 N. Juniper St.'')"
proof -
  have a: "check_address_in_text address_patterns ''x 835 e 14 y'' = (True, Some ''835 e 14'')"
    by code_simp
  have b: "check_address_in_text_fast quick_check juniper_patterns ''at 14735 N. Juniper St.'' =
     (True, Some ''14735 N. Juniper St.'')"
    by code_simp
  from a b match_result_sound[of "''x 835 e 14 y''" "Some ''835 e 14''"]
    match_result_sound[of "''at 14735 N. Juniper St.''" "Some ''14735 N. Juniper St.''"]
  show ?thesis by blast
qed

section \<open>What each part of the crawler changes\<close>

lemma page_gets_append: "page_gets (xs @ ys) = page_gets xs @ page_gets ys"
  by (induction xs rule: page_gets.induct) simp_all

lemma get_page_content_state:
  "snd (get_page_content w u c) = c\<lparr>trace := trace c @ [Get u]\<rparr>"
  by (simp add: get_page_content_def Let_def split: io.splits prod.splits)

lemma get_page_content_not_Failed: "fst (get_page_content w u c) \<noteq> Failed"
  by (simp add: get_page_content_def Let_def split: io.splits prod.splits)

lemma check_pdf_content_state:
  "\<exists>ev. snd (check_pdf_content w v u c) = c\<lparr>trace := trace c @ ev\<rparr> \<and> page_gets ev = []"
proof (cases v)
  case Baseline
  have "snd (check_pdf_content_baseline w u c) = c\<lparr>trace := trace c @ [GetPdf u]\<rparr>"
    by (simp add: check_pdf_content_baseline_def Let_def split: io.splits)
  moreover have "page_gets [GetPdf u] = []" by simp
  ultimately show ?thesis using Baseline by (auto simp: check_pdf_content_def)
next
  case Fast
  have "snd (check_pdf_content_fast w u c) = c\<lparr>trace := trace c @ [Head u]\<rparr> \<or>
        snd (check_pdf_content_fast w u c) = c\<lparr>trace := trace c @ [Head u, GetPdf u]\<rparr>"
    by (simp add: check_pdf_content_fast_def Let_def split: io.splits option.splits)
  moreover have "page_gets [Head u] = []" "page_gets [Head u, GetPdf u] = []" by simp_all
  ultimately show ?thesis using Fast by (auto simp: check_pdf_content_def)
qed

lemma check_pdf_content_not_Failed: "fst (check_pdf_content w v u c) \<noteq> Failed"
  by (cases v)
     (simp_all add: check_pdf_content_def check_pdf_content_baseline_def
        check_pdf_content_fast_def Let_def split: io.splits option.splits)

lemma record_finding_frame:
  "visited_urls (record_finding w u t m ti no pa c) = visited_urls c"
  "trace (record_finding w u t m ti no pa c) = trace c"
  "progress_file (record_finding w u t m ti no pa c) = progress_file c"
  "base_url (record_finding w u t m ti no pa c) = base_url c"
  "domain (record_finding w u t m ti no pa c) = domain c"
  by (simp_all add: record_finding_def append_to_csv_def Let_def)

lemma is_valid_url_cong: "domain c' = domain c \<Longrightarrow> is_valid_url w c' u = is_valid_url w c u"
  by (simp add: is_valid_url_def split: option.splits)

text \<open>A finished pass of the link loop, one link at a time.\<close>

lemma process_links_step:
  assumes "process_links w v cur (link # links) q c = (fl, q', c')"
  obtains
    (skip) "\<not> (is_valid_url w c link \<and> passes_skip_filter v link \<and>
              link \<notin> visited_urls c \<and> link \<notin> set q)"
      "process_links w v cur links q c = (fl, q', c')"
  | (enqueue) "is_valid_url w c link" "passes_skip_filter v link"
      "link \<notin> visited_urls c" "link \<notin> set q"
      "\<not> suffix ''.pdf'' (lower link)"
      "process_links w v cur links (q @ [link]) c = (fl, q', c')"
  | (pdf_found) m c1 where "is_valid_url w c link" "passes_skip_filter v link"
      "link \<notin> visited_urls c" "link \<notin> set q"
      "suffix ''.pdf'' (lower link)"
      "check_pdf_content w v link c = (Ok (True, m), c1)"
      "process_links w v cur links q
         (record_finding w link ''PDF'' m [] ''PDF document (linked)'' cur c1) = (fl, q', c')"
  | (pdf_none) m c1 where "is_valid_url w c link" "passes_skip_filter v link"
      "link \<notin> visited_urls c" "link \<notin> set q"
      "suffix ''.pdf'' (lower link)"
      "check_pdf_content w v link c = (Ok (False, m), c1)"
      "process_links w v cur links q c1 = (fl, q', c')"
  | (interrupted) "is_valid_url w c link" "passes_skip_filter v link"
      "link \<notin> visited_urls c" "link \<notin> set q"
      "suffix ''.pdf'' (lower link)"
      "fst (check_pdf_content w v link c) = Interrupt"
      "fl = Raised" "q' = q" "c' = snd (check_pdf_content w v link c)"
proof (cases "is_valid_url w c link \<and> passes_skip_filter v link \<and>
              link \<notin> visited_urls c \<and> link \<notin> set q")
  case False
  with assms have "process_links w v cur links q c = (fl, q', c')" by simp
  with False show ?thesis by (rule skip)
next
  case guard: True
  then have g: "is_valid_url w c link" "passes_skip_filter v link"
      "link \<notin> visited_urls c" "link \<notin> set q" by simp_all
  show ?thesis
  proof (cases "suffix ''.pdf'' (lower link)")
    case False
    with guard assms have "process_links w v cur links (q @ [link]) c = (fl, q', c')" by simp
    then show ?thesis by (rule enqueue[OF g False])
  next
    case pdf: True
    obtain r c1 where r: "check_pdf_content w v link c = (r, c1)" by (cases "check_pdf_content w v link c")
    show ?thesis
    proof (cases r)
      case (Ok fm)
      obtain found m where fm: "fm = (found, m)" by (cases fm)
      show ?thesis
      proof (cases found)
        case True
        with guard pdf r Ok fm assms
        have "process_links w v cur links q
               (record_finding w link ''PDF'' m [] ''PDF document (linked)'' cur c1) = (fl, q', c')"
          by simp
        moreover from r Ok fm True have "check_pdf_content w v link c = (Ok (True, m), c1)"
          by simp
        ultimately show ?thesis using pdf_found[OF g pdf] by blast
      next
        case False
        with guard pdf r Ok fm assms
        have "process_links w v cur links q c1 = (fl, q', c')" by simp
        moreover from r Ok fm False have "check_pdf_content w v link c = (Ok (False, m), c1)"
          by simp
        ultimately show ?thesis using pdf_none[OF g pdf] by blast
      qed
    next
      case Failed
      with r check_pdf_content_not_Failed[of w v link c] show ?thesis by simp
    next
      case Interrupt
      with guard pdf r assms have "fl = Raised" "q' = q" "c' = c1" by simp_all
      with r Interrupt show ?thesis using interrupted[OF g pdf] by simp
    qed
  qed
qed

lemma check_pdf_content_cases:
  obtains ev r where "check_pdf_content w v u c = (r, c\<lparr>trace := trace c @ ev\<rparr>)"
    "page_gets ev = []" "r \<noteq> Failed"
proof -
  from check_pdf_content_state[of w v u c] obtain ev
    where "snd (check_pdf_content w v u c) = c\<lparr>trace := trace c @ ev\<rparr>" "page_gets ev = []"
    by blast
  moreover have "fst (check_pdf_content w v u c) \<noteq> Failed" by (rule check_pdf_content_not_Failed)
  ultimately show ?thesis using that[of "fst (check_pdf_content w v u c)" ev]
    by (metis prod.collapse)
qed

lemma process_links_frame:
  "process_links w v cur links q c = (fl, q', c') \<Longrightarrow>
     visited_urls c' = visited_urls c \<and> progress_file c' = progress_file c \<and>
     base_url c' = base_url c \<and> domain c' = domain c \<and> fl \<noteq> Continue \<and>
     (\<exists>ev. trace c' = trace c @ ev \<and> page_gets ev = [])"
proof (induction links arbitrary: q c)
  case Nil
  then show ?case by simp
next
  case (Cons link links)
  from Cons.prems show ?case
  proof (cases rule: process_links_step)
    case skip
    from Cons.IH[OF skip(2)] show ?thesis .
  next
    case enqueue
    from Cons.IH[OF enqueue(6)] show ?thesis .
  next
    case (pdf_found m c1)
    obtain ev r where "check_pdf_content w v link c = (r, c\<lparr>trace := trace c @ ev\<rparr>)"
      and ev: "page_gets ev = []" by (rule check_pdf_content_cases)
    with pdf_found(6) have c1: "c1 = c\<lparr>trace := trace c @ ev\<rparr>" by simp
    from Cons.IH[OF pdf_found(7)] obtain ev' where
      "visited_urls c' = visited_urls c" "progress_file c' = progress_file c"
      "base_url c' = base_url c" "domain c' = domain c" "fl \<noteq> Continue"
      "trace c' = (trace c @ ev) @ ev'" "page_gets ev' = []"
      by (auto simp: record_finding_frame c1)
    with ev have "trace c' = trace c @ (ev @ ev') \<and> page_gets (ev @ ev') = []"
      by (simp add: page_gets_append)
    with \<open>visited_urls c' = visited_urls c\<close> \<open>progress_file c' = progress_file c\<close>
      \<open>base_url c' = base_url c\<close> \<open>domain c' = domain c\<close> \<open>fl \<noteq> Continue\<close>
    show ?thesis by blast
  next
    case (pdf_none m c1)
    obtain ev r where "check_pdf_content w v link c = (r, c\<lparr>trace := trace c @ ev\<rparr>)"
      and ev: "page_gets ev = []" by (rule check_pdf_content_cases)
    with pdf_none(6) have c1: "c1 = c\<lparr>trace := trace c @ ev\<rparr>" by simp
    from Cons.IH[OF pdf_none(7)] obtain ev' where
      "visited_urls c' = visited_urls c" "progress_file c' = progress_file c"
      "base_url c' = base_url c" "domain c' = domain c" "fl \<noteq> Continue"
      "trace c' = (trace c @ ev) @ ev'" "page_gets ev' = []"
      by (auto simp: c1)
    with ev have "trace c' = trace c @ (ev @ ev') \<and> page_gets (ev @ ev') = []"
      by (simp add: page_gets_append)
    with \<open>visited_urls c' = visited_urls c\<close> \<open>progress_file c' = progress_file c\<close>
      \<open>base_url c' = base_url c\<close> \<open>domain c' = domain c\<close> \<open>fl \<noteq> Continue\<close>
    show ?thesis by blast
  next
    case interrupted
    obtain ev r where "check_pdf_content w v link c = (r, c\<lparr>trace := trace c @ ev\<rparr>)"
      and ev: "page_gets ev = []" by (rule check_pdf_content_cases)
    with interrupted(9) have c1: "c' = c\<lparr>trace := trace c @ ev\<rparr>" by simp
    with ev interrupted(7) show ?thesis by auto
  qed
qed

lemma process_links_queue:
  "process_links w v cur links q c = (fl, q', c') \<Longrightarrow>
     \<exists>added. q' = q @ added \<and> distinct added \<and> set added \<inter> set q = {} \<and>
        set added \<inter> visited_urls c = {} \<and> set added \<subseteq> set links \<and>
        (\<forall>u \<in> set added. \<not> suffix ''.pdf'' (lower u))"
proof (induction links arbitrary: q c)
  case Nil
  then show ?case by simp
next
  case (Cons link links)
  have weaken: "\<exists>added. q' = q @ added \<and> distinct added \<and> set added \<inter> set q = {} \<and>
        set added \<inter> visited_urls c = {} \<and> set added \<subseteq> set (link # links) \<and>
        (\<forall>u \<in> set added. \<not> suffix ''.pdf'' (lower u))"
    if "\<exists>added. q' = q @ added \<and> distinct added \<and> set added \<inter> set q = {} \<and>
        set added \<inter> visited_urls c = {} \<and> set added \<subseteq> set links \<and>
        (\<forall>u \<in> set added. \<not> suffix ''.pdf'' (lower u))"
    using that by auto
  from Cons.prems show ?case
  proof (cases rule: process_links_step)
    case skip
    from Cons.IH[OF skip(2)] show ?thesis by (rule weaken)
  next
    case enqueue
    from Cons.IH[OF enqueue(6)] obtain added where a: "q' = (q @ [link]) @ added"
      "distinct added" "set added \<inter> set (q @ [link]) = {}" "set added \<inter> visited_urls c = {}"
      "set added \<subseteq> set links" "\<forall>u \<in> set added. \<not> suffix ''.pdf'' (lower u)"
      by blast
    let ?A = "link # added"
    from a enqueue have "q' = q @ ?A \<and> distinct ?A \<and> set ?A \<inter> set q = {} \<and>
        set ?A \<inter> visited_urls c = {} \<and> set ?A \<subseteq> set (link # links) \<and>
        (\<forall>u \<in> set ?A. \<not> suffix ''.pdf'' (lower u))"
      by auto
    then show ?thesis by blast
  next
    case (pdf_found m c1)
    obtain ev r where "check_pdf_content w v link c = (r, c\<lparr>trace := trace c @ ev\<rparr>)"
      by (rule check_pdf_content_cases)
    with pdf_found(6) have c1: "c1 = c\<lparr>trace := trace c @ ev\<rparr>" by simp
    from Cons.IH[OF pdf_found(7)] show ?thesis
      by (intro weaken) (simp add: record_finding_frame c1)
  next
    case (pdf_none m c1)
    obtain ev r where "check_pdf_content w v link c = (r, c\<lparr>trace := trace c @ ev\<rparr>)"
      by (rule check_pdf_content_cases)
    with pdf_none(6) have c1: "c1 = c\<lparr>trace := trace c @ ev\<rparr>" by simp
    from Cons.IH[OF pdf_none(7)] show ?thesis
      by (intro weaken) (simp add: c1)
  next
    case interrupted
    then have "q' = q @ []" by simp
    then show ?thesis by (intro exI[of _ "[]"]) simp
  qed
qed

lemma record_finding_lists:
  assumes "output_file c = Some rows"
  shows "\<exists>f. f_url f = u \<and> f_type f = t \<and> f_parent_page f = pa \<and> f_notes f = no \<and>
           f_address_found f = m \<and> f_title f = ti \<and>
           output_file (record_finding w u t m ti no pa c) = Some (rows @ [writerow f]) \<and>
           found_pdfs (record_finding w u t m ti no pa c) =
             (if t = ''PDF'' then found_pdfs c @ [f] else found_pdfs c) \<and>
           found_pages (record_finding w u t m ti no pa c) =
             (if t = ''PDF'' then found_pages c else found_pages c @ [f])"
  using assms by (simp add: record_finding_def append_to_csv_def Let_def)

lemma process_links_found:
  "process_links w v cur links q c = (fl, q', c') \<Longrightarrow> output_file c = Some rows \<Longrightarrow>
     \<exists>fs. found_pdfs c' = found_pdfs c @ fs \<and> found_pages c' = found_pages c \<and>
        output_file c' = Some (rows @ map writerow fs) \<and>
        (\<forall>f \<in> set fs. f_type f = ''PDF'' \<and> f_parent_page f = cur \<and> f_url f \<in> set links \<and>
            suffix ''.pdf'' (lower (f_url f)))"
proof (induction links arbitrary: q c rows)
  case Nil
  then show ?case by simp
next
  case (Cons link links)
  have weaken: "\<exists>fs. found_pdfs c' = found_pdfs c @ fs \<and> found_pages c' = found_pages c \<and>
        output_file c' = Some (rows @ map writerow fs) \<and>
        (\<forall>f \<in> set fs. f_type f = ''PDF'' \<and> f_parent_page f = cur \<and>
            f_url f \<in> set (link # links) \<and> suffix ''.pdf'' (lower (f_url f)))"
    if "\<exists>fs. found_pdfs c' = found_pdfs c @ fs \<and> found_pages c' = found_pages c \<and>
        output_file c' = Some (rows @ map writerow fs) \<and>
        (\<forall>f \<in> set fs. f_type f = ''PDF'' \<and> f_parent_page f = cur \<and> f_url f \<in> set links \<and>
            suffix ''.pdf'' (lower (f_url f)))"
    using that by auto
  from Cons.prems(1) show ?case
  proof (cases rule: process_links_step)
    case skip
    from Cons.IH[OF skip(2) Cons.prems(2)] show ?thesis by (rule weaken)
  next
    case enqueue
    from Cons.IH[OF enqueue(6) Cons.prems(2)] show ?thesis by (rule weaken)
  next
    case (pdf_found m c1)
    obtain ev r where "check_pdf_content w v link c = (r, c\<lparr>trace := trace c @ ev\<rparr>)"
      by (rule check_pdf_content_cases)
    with pdf_found(6) have c1: "c1 = c\<lparr>trace := trace c @ ev\<rparr>" by simp
    with Cons.prems(2) have o1: "output_file c1 = Some rows" by simp
    let ?c2 = "record_finding w link ''PDF'' m [] ''PDF document (linked)'' cur c1"
    from record_finding_lists[OF o1, of link "''PDF''" cur "''PDF document (linked)''" m "[]" w]
    obtain f where f: "f_url f = link" "f_type f = ''PDF''" "f_parent_page f = cur"
      "output_file ?c2 = Some (rows @ [writerow f])"
      "found_pdfs ?c2 = found_pdfs c1 @ [f]" "found_pages ?c2 = found_pages c1"
      by auto
    from Cons.IH[OF pdf_found(7) f(4)] obtain fs where fs:
      "found_pdfs c' = found_pdfs ?c2 @ fs" "found_pages c' = found_pages ?c2"
      "output_file c' = Some ((rows @ [writerow f]) @ map writerow fs)"
      "\<forall>f \<in> set fs. f_type f = ''PDF'' \<and> f_parent_page f = cur \<and> f_url f \<in> set links \<and>
            suffix ''.pdf'' (lower (f_url f))"
      by blast
    let ?F = "f # fs"
    from f fs c1 pdf_found(5)
    have "found_pdfs c' = found_pdfs c @ ?F \<and> found_pages c' = found_pages c \<and>
        output_file c' = Some (rows @ map writerow ?F) \<and>
        (\<forall>f \<in> set ?F. f_type f = ''PDF'' \<and> f_parent_page f = cur \<and>
            f_url f \<in> set (link # links) \<and> suffix ''.pdf'' (lower (f_url f)))"
      by auto
    then show ?thesis by blast
  next
    case (pdf_none m c1)
    obtain ev r where "check_pdf_content w v link c = (r, c\<lparr>trace := trace c @ ev\<rparr>)"
      by (rule check_pdf_content_cases)
    with pdf_none(6) have c1: "c1 = c\<lparr>trace := trace c @ ev\<rparr>" by simp
    with Cons.prems(2) have o1: "output_file c1 = Some rows" by simp
    from Cons.IH[OF pdf_none(7) o1] show ?thesis
      by (intro weaken) (simp add: c1)
  next
    case interrupted
    obtain ev r where "check_pdf_content w v link c = (r, c\<lparr>trace := trace c @ ev\<rparr>)"
      by (rule check_pdf_content_cases)
    with interrupted(9) have c1: "c' = c\<lparr>trace := trace c @ ev\<rparr>" by simp
    with Cons.prems(2) show ?thesis by (intro exI[of _ "[]"]) simp
  qed
qed

text \<open>The ways through the \<open>try\<close> block.\<close>

lemma crawl_page_cases:
  assumes "crawl_page w v cur q c = (fl, q', c')"
  defines "c1 \<equiv> c\<lparr>trace := trace c @ [Get cur]\<rparr>"
  obtains
    (fetch_interrupted) "session_get_page w (length (trace c)) cur = Interrupt"
      "fl = Raised" "q' = q" "c' = c1"
  | (fetch_failed) "session_get_page w (length (trace c)) cur = Failed"
      "fl = Continue" "q' = q" "c' = c1"
  | (empty_body) ct where "session_get_page w (length (trace c)) cur = Ok ([], ct)"
      "fl = Continue" "q' = q" "c' = c1"
  | (direct_pdf) html ct r c2 where "session_get_page w (length (trace c)) cur = Ok (html, ct)"
      "html \<noteq> []" "ct \<noteq> [] \<and> occurs_in ''pdf'' (lower ct)"
      "check_pdf_content w v cur c1 = (r, c2)"
      "(fl, q', c') =
         (case r of
            Ok (found, m) \<Rightarrow>
              (Continue, q,
               if found then record_finding w cur ''PDF'' m [] ''PDF document (direct access)'' [] c2
               else c2)
          | _ \<Rightarrow> (Raised, q, c2))"
  | (parse_failed) html ct where "session_get_page w (length (trace c)) cur = Ok (html, ct)"
      "html \<noteq> []" "\<not> (ct \<noteq> [] \<and> occurs_in ''pdf'' (lower ct))"
      "safe_parse_html w html = None"
      "fl = Continue" "q' = q" "c' = c1"
  | (html_page) html ct s found m where "session_get_page w (length (trace c)) cur = Ok (html, ct)"
      "html \<noteq> []" "\<not> (ct \<noteq> [] \<and> occurs_in ''pdf'' (lower ct))"
      "safe_parse_html w html = Some s"
      "check_address v (soup_text s) = (found, m)"
      "process_links w v cur (extract_links w html cur) q
         (if found
          then record_finding w cur ''HTML Page'' m
                 (case soup_title s of None \<Rightarrow> ''No title'' | Some t \<Rightarrow> t)
                 ''HTML page content'' [] c1
          else c1) = (fl, q', c')"
proof (cases "session_get_page w (length (trace c)) cur")
  case Interrupt
  with assms(1) have "fl = Raised" "q' = q" "c' = c1"
    by (simp_all add: crawl_page_def get_page_content_def Let_def c1_def)
  with Interrupt show ?thesis by (rule fetch_interrupted)
next
  case Failed
  with assms(1) have "fl = Continue" "q' = q" "c' = c1"
    by (simp_all add: crawl_page_def get_page_content_def Let_def c1_def)
  with Failed show ?thesis by (rule fetch_failed)
next
  case (Ok p)
  obtain html ct where p: "p = (html, ct)" by (cases p)
  with Ok have g: "get_page_content w cur c = (Ok (Some (html, ct)), c1)"
    by (simp add: get_page_content_def Let_def c1_def)
  show ?thesis
  proof (cases "html = []")
    case True
    with g assms(1) have "fl = Continue" "q' = q" "c' = c1"
      by (simp_all add: crawl_page_def)
    with Ok p True show ?thesis using empty_body by simp
  next
    case ne: False
    show ?thesis
    proof (cases "ct \<noteq> [] \<and> occurs_in ''pdf'' (lower ct)")
      case True
      obtain r c2 where r: "check_pdf_content w v cur c1 = (r, c2)"
        by (cases "check_pdf_content w v cur c1")
      from g ne True r assms(1) have "(fl, q', c') =
         (case r of
            Ok (found, m) \<Rightarrow>
              (Continue, q,
               if found then record_finding w cur ''PDF'' m [] ''PDF document (direct access)'' [] c2
               else c2)
          | _ \<Rightarrow> (Raised, q, c2))"
        by (simp add: crawl_page_def split: io.splits prod.splits)
      with Ok p ne True r show ?thesis using direct_pdf by blast
    next
      case npdf: False
      show ?thesis
      proof (cases "safe_parse_html w html")
        case None
        with g ne assms(1) have "fl = Continue" "q' = q" "c' = c1"
          by (simp_all add: crawl_page_def npdf)
        with Ok p ne npdf None show ?thesis using parse_failed by blast
      next
        case (Some s)
        obtain found m where fm: "check_address v (soup_text s) = (found, m)"
          by (cases "check_address v (soup_text s)")
        with g ne Some assms(1) have "process_links w v cur (extract_links w html cur) q
         (if found
          then record_finding w cur ''HTML Page'' m
                 (case soup_title s of None \<Rightarrow> ''No title'' | Some t \<Rightarrow> t)
                 ''HTML page content'' [] c1
          else c1) = (fl, q', c')"
          by (simp add: crawl_page_def npdf)
        with Ok p ne npdf Some fm show ?thesis using html_page by blast
      qed
    qed
  qed
qed

lemma crawl_page_frame:
  assumes "crawl_page w v cur q c = (fl, q', c')"
  shows "visited_urls c' = visited_urls c \<and> progress_file c' = progress_file c \<and>
     base_url c' = base_url c \<and> domain c' = domain c \<and>
     (\<exists>ev. trace c' = trace c @ Get cur # ev \<and> page_gets ev = [])"
  using assms
proof (cases rule: crawl_page_cases)
  case (direct_pdf html ct r c2)
  let ?c1 = "c\<lparr>trace := trace c @ [Get cur]\<rparr>"
  obtain ev r' where "check_pdf_content w v cur ?c1 = (r', ?c1\<lparr>trace := trace ?c1 @ ev\<rparr>)"
    and ev: "page_gets ev = []" by (rule check_pdf_content_cases)
  with direct_pdf(4) have c2: "c2 = ?c1\<lparr>trace := trace ?c1 @ ev\<rparr>" by simp
  from direct_pdf(5) have "c' = c2 \<or> (\<exists>m. c' = record_finding w cur ''PDF'' m []
       ''PDF document (direct access)'' [] c2)"
    by (auto split: io.splits prod.splits if_splits)
  then have "visited_urls c' = visited_urls c \<and> progress_file c' = progress_file c \<and>
     base_url c' = base_url c \<and> domain c' = domain c \<and> trace c' = trace c @ Get cur # ev"
    by (auto simp: c2 record_finding_frame)
  with ev show ?thesis by blast
next
  case (html_page html ct s found m)
  let ?c1 = "c\<lparr>trace := trace c @ [Get cur]\<rparr>"
  let ?c2 = "if found
          then record_finding w cur ''HTML Page'' m
                 (case soup_title s of None \<Rightarrow> ''No title'' | Some t \<Rightarrow> t)
                 ''HTML page content'' [] ?c1
          else ?c1"
  from process_links_frame[OF html_page(6)] obtain ev where
    f: "visited_urls c' = visited_urls ?c2" "progress_file c' = progress_file ?c2"
       "base_url c' = base_url ?c2" "domain c' = domain ?c2"
       "trace c' = trace ?c2 @ ev" and ev: "page_gets ev = []"
    by blast
  from f have "visited_urls c' = visited_urls c \<and> progress_file c' = progress_file c \<and>
     base_url c' = base_url c \<and> domain c' = domain c \<and> trace c' = trace c @ Get cur # ev"
    by (simp add: record_finding_frame split: if_splits)
  with ev show ?thesis by blast
qed (auto intro: exI[of _ "[]"])

lemma crawl_page_queue:
  assumes "crawl_page w v cur q c = (fl, q', c')"
  shows "\<exists>added. q' = q @ added \<and> distinct added \<and> set added \<inter> set q = {} \<and>
        set added \<inter> visited_urls c = {} \<and>
        (\<forall>u \<in> set added. \<not> suffix ''.pdf'' (lower u))"
  using assms
proof (cases rule: crawl_page_cases)
  case (direct_pdf html ct r c2)
  from direct_pdf(5) have "q' = q @ []" by (auto split: io.splits prod.splits if_splits)
  then show ?thesis by (intro exI[of _ "[]"]) simp
next
  case (html_page html ct s found m)
  from process_links_queue[OF html_page(6)] show ?thesis
    by (auto simp: record_finding_frame split: if_splits)
qed (auto intro: exI[of _ "[]"])

lemma crawl_page_found:
  assumes "crawl_page w v cur q c = (fl, q', c')" and rows: "output_file c = Some rows"
  shows "\<exists>ps fs. found_pages c' = found_pages c @ ps \<and> found_pdfs c' = found_pdfs c @ fs \<and>
        output_file c' = Some (rows @ map writerow (ps @ fs)) \<and>
        (\<forall>f \<in> set ps. f_type f = ''HTML Page'') \<and> (\<forall>f \<in> set fs. f_type f = ''PDF'')"
  using assms(1)
proof (cases rule: crawl_page_cases)
  case (direct_pdf html ct r c2)
  let ?c1 = "c\<lparr>trace := trace c @ [Get cur]\<rparr>"
  obtain ev r' where "check_pdf_content w v cur ?c1 = (r', ?c1\<lparr>trace := trace ?c1 @ ev\<rparr>)"
    by (rule check_pdf_content_cases)
  with direct_pdf(4) have c2: "c2 = ?c1\<lparr>trace := trace ?c1 @ ev\<rparr>" by simp
  with rows have o2: "output_file c2 = Some rows" by simp
  from direct_pdf(5) consider "c' = c2" | m where "c' = record_finding w cur ''PDF'' m []
       ''PDF document (direct access)'' [] c2"
    by (auto split: io.splits prod.splits if_splits)
  then show ?thesis
  proof cases
    case 1
    with c2 rows show ?thesis by (intro exI[of _ "[]"]) simp
  next
    case 2
    from record_finding_lists[OF o2, of cur "''PDF''" "[]" "''PDF document (direct access)''" m "[]" w]
    obtain f where "f_type f = ''PDF''" "output_file c' = Some (rows @ [writerow f])"
      "found_pdfs c' = found_pdfs c2 @ [f]" "found_pages c' = found_pages c2"
      using 2 by auto
    with c2 have "found_pages c' = found_pages c @ [] \<and> found_pdfs c' = found_pdfs c @ [f] \<and>
        output_file c' = Some (rows @ map writerow ([] @ [f])) \<and>
        (\<forall>f \<in> set []. f_type f = ''HTML Page'') \<and> (\<forall>f \<in> set [f]. f_type f = ''PDF'')"
      by simp
    then show ?thesis by blast
  qed
next
  case (html_page html ct s found m)
  let ?c1 = "c\<lparr>trace := trace c @ [Get cur]\<rparr>"
  from rows have o1: "output_file ?c1 = Some rows" by simp
  show ?thesis
  proof (cases found)
    case False
    with html_page(6) have pl: "process_links w v cur (extract_links w html cur) q ?c1 = (fl, q', c')"
      by simp
    from process_links_found[OF pl o1] obtain fs where "found_pdfs c' = found_pdfs c @ fs"
      "found_pages c' = found_pages c" "output_file c' = Some (rows @ map writerow fs)"
      "\<forall>f \<in> set fs. f_type f = ''PDF''" by auto
    then have "found_pages c' = found_pages c @ [] \<and> found_pdfs c' = found_pdfs c @ fs \<and>
        output_file c' = Some (rows @ map writerow ([] @ fs)) \<and>
        (\<forall>f \<in> set []. f_type f = ''HTML Page'') \<and> (\<forall>f \<in> set fs. f_type f = ''PDF'')"
      by simp
    then show ?thesis by blast
  next
    case True
    let ?c2 = "record_finding w cur ''HTML Page'' m
                 (case soup_title s of None \<Rightarrow> ''No title'' | Some t \<Rightarrow> t)
                 ''HTML page content'' [] ?c1"
    from True html_page(6) have pl: "process_links w v cur (extract_links w html cur) q ?c2 = (fl, q', c')"
      by simp
    from record_finding_lists[OF o1, of cur "''HTML Page''" "[]" "''HTML page content''" m
        "case soup_title s of None \<Rightarrow> ''No title'' | Some t \<Rightarrow> t" w]
    obtain f where f: "f_type f = ''HTML Page''" "output_file ?c2 = Some (rows @ [writerow f])"
      "found_pdfs ?c2 = found_pdfs ?c1" "found_pages ?c2 = found_pages ?c1 @ [f]"
      by auto
    from process_links_found[OF pl f(2)] obtain fs where "found_pdfs c' = found_pdfs ?c2 @ fs"
      "found_pages c' = found_pages ?c2" "output_file c' = Some ((rows @ [writerow f]) @ map writerow fs)"
      "\<forall>f \<in> set fs. f_type f = ''PDF''" by auto
    with f have "found_pages c' = found_pages c @ [f] \<and> found_pdfs c' = found_pdfs c @ fs \<and>
        output_file c' = Some (rows @ map writerow ([f] @ fs)) \<and>
        (\<forall>f \<in> set [f]. f_type f = ''HTML Page'') \<and> (\<forall>f \<in> set fs. f_type f = ''PDF'')"
      by simp
    then show ?thesis by blast
  qed
qed (use rows in \<open>auto intro: exI[of _ "[]"]\<close>)

lemma save_progress_frame:
  "visited_urls (save_progress w n u c) = visited_urls c"
  "trace (save_progress w n u c) = trace c"
  "output_file (save_progress w n u c) = output_file c"
  "found_pages (save_progress w n u c) = found_pages c"
  "found_pdfs (save_progress w n u c) = found_pdfs c"
  "base_url (save_progress w n u c) = base_url c"
  "domain (save_progress w n u c) = domain c"
  by (simp_all add: save_progress_def)

text \<open>The state in which the \<open>try\<close> block starts.\<close>

lemma crawl_body_unfold:
  assumes "crawl_body w v cur q n c = (fl, q', c')"
  defines "c2 \<equiv> (if n mod 50 = 0
                then save_progress w n cur (c\<lparr>visited_urls := insert cur (visited_urls c)\<rparr>)
                else c\<lparr>visited_urls := insert cur (visited_urls c)\<rparr>)"
  obtains fl0 c3 where "crawl_page w v cur q c2 = (fl0, q', c3)"
    "fl0 = Next \<longrightarrow> c' = c3\<lparr>trace := trace c3 @ [Sleep (delay v)]\<rparr> \<and>
       fl = (if sleep_interrupted w (length (trace c3)) then Raised else Next)"
    "fl0 \<noteq> Next \<longrightarrow> c' = c3 \<and> fl = fl0"
proof -
  obtain fl0 q0 c3 where p: "crawl_page w v cur q c2 = (fl0, q0, c3)"
    by (cases "crawl_page w v cur q c2") auto
  from assms(1) p have "q' = q0"
    by (cases fl0) (simp_all add: crawl_body_def Let_def c2_def)
  moreover from assms(1) p
  have "fl0 = Next \<longrightarrow> c' = c3\<lparr>trace := trace c3 @ [Sleep (delay v)]\<rparr> \<and>
       fl = (if sleep_interrupted w (length (trace c3)) then Raised else Next)"
    by (cases fl0) (simp_all add: crawl_body_def Let_def c2_def)
  moreover from assms(1) p have "fl0 \<noteq> Next \<longrightarrow> c' = c3 \<and> fl = fl0"
    by (cases fl0) (simp_all add: crawl_body_def Let_def c2_def)
  ultimately show ?thesis using that p by blast
qed

lemma crawl_body_frame:
  assumes "crawl_body w v cur q n c = (fl, q', c')"
  shows "visited_urls c' = insert cur (visited_urls c) \<and>
     base_url c' = base_url c \<and> domain c' = domain c \<and>
     (\<exists>ev. trace c' = trace c @ Get cur # ev \<and> page_gets ev = [])"
  using assms
proof (cases rule: crawl_body_unfold)
  case (1 fl0 c3)
  from crawl_page_frame[OF 1(1)] obtain ev where
    f: "visited_urls c3 = insert cur (visited_urls c)" "base_url c3 = base_url c"
       "domain c3 = domain c" "trace c3 = trace c @ Get cur # ev" and ev: "page_gets ev = []"
    by (auto simp: save_progress_frame split: if_splits)
  show ?thesis
  proof (cases "fl0 = Next")
    case True
    with 1(2) have "c' = c3\<lparr>trace := trace c3 @ [Sleep (delay v)]\<rparr>" by simp
    with f ev have "visited_urls c' = insert cur (visited_urls c) \<and>
     base_url c' = base_url c \<and> domain c' = domain c \<and>
     trace c' = trace c @ Get cur # (ev @ [Sleep (delay v)]) \<and>
     page_gets (ev @ [Sleep (delay v)]) = []"
      by (simp add: page_gets_append)
    then show ?thesis by blast
  next
    case False
    with 1(3) have "c' = c3" by simp
    with f ev show ?thesis by blast
  qed
qed

lemma crawl_body_queue:
  assumes "crawl_body w v cur q n c = (fl, q', c')"
  shows "\<exists>added. q' = q @ added \<and> distinct added \<and> set added \<inter> set q = {} \<and>
        set added \<inter> insert cur (visited_urls c) = {} \<and>
        (\<forall>u \<in> set added. \<not> suffix ''.pdf'' (lower u))"
  using assms
proof (cases rule: crawl_body_unfold)
  case (1 fl0 c3)
  from crawl_page_queue[OF 1(1)] show ?thesis
    by (auto simp: save_progress_frame split: if_splits)
qed

lemma crawl_body_found:
  assumes "crawl_body w v cur q n c = (fl, q', c')" and rows: "output_file c = Some rows"
  shows "\<exists>ps fs. found_pages c' = found_pages c @ ps \<and> found_pdfs c' = found_pdfs c @ fs \<and>
        output_file c' = Some (rows @ map writerow (ps @ fs)) \<and>
        (\<forall>f \<in> set ps. f_type f = ''HTML Page'') \<and> (\<forall>f \<in> set fs. f_type f = ''PDF'')"
  using assms(1)
proof (cases rule: crawl_body_unfold)
  case (1 fl0 c3)
  let ?c2 = "if n mod 50 = 0
                then save_progress w n cur (c\<lparr>visited_urls := insert cur (visited_urls c)\<rparr>)
                else c\<lparr>visited_urls := insert cur (visited_urls c)\<rparr>"
  from rows have o: "output_file ?c2 = Some rows" by (simp add: save_progress_frame)
  from crawl_page_found[OF 1(1) o] obtain ps fs where
    r: "found_pages c3 = found_pages ?c2 @ ps" "found_pdfs c3 = found_pdfs ?c2 @ fs"
       "output_file c3 = Some (rows @ map writerow (ps @ fs))"
       "\<forall>f \<in> set ps. f_type f = ''HTML Page''" "\<forall>f \<in> set fs. f_type f = ''PDF''"
    by blast
  have "found_pages c' = found_pages c3 \<and> found_pdfs c' = found_pdfs c3 \<and>
        output_file c' = output_file c3"
    using 1(2,3) by (cases "fl0 = Next") simp_all
  with r have "found_pages c' = found_pages c @ ps \<and> found_pdfs c' = found_pdfs c @ fs \<and>
        output_file c' = Some (rows @ map writerow (ps @ fs)) \<and>
        (\<forall>f \<in> set ps. f_type f = ''HTML Page'') \<and> (\<forall>f \<in> set fs. f_type f = ''PDF'')"
    by (simp add: save_progress_frame split: if_splits)
  then show ?thesis by blast
qed

lemma crawl_body_progress:
  assumes "crawl_body w v cur q n c = (fl, q', c')"
  shows "(n mod 50 \<noteq> 0 \<longrightarrow> progress_file c' = progress_file c) \<and>
         (n mod 50 = 0 \<longrightarrow> (\<exists>p. progress_file c' = Some p \<and> p_pages_crawled p = n \<and>
              p_current_url p = cur))"
  using assms
proof (cases rule: crawl_body_unfold)
  case (1 fl0 c3)
  have "progress_file c' = progress_file c3"
    using 1(2,3) by (cases "fl0 = Next") simp_all
  with crawl_page_frame[OF 1(1)] show ?thesis
    by (auto simp: save_progress_def)
qed

text \<open>
  An invariant of the \<open>while\<close> loop: what holds at the start and is kept by the pop of a
  visited URL and by the body holds when the loop ends, normally or by an interrupt.  The
  loop ends normally only when its condition is false.
\<close>

lemma crawl_loop_invariant:
  assumes run: "crawl_loop w v max_pages q n c = (fl, q', n', c')"
    and init: "I q n c"
    and skip: "\<And>cur rest k d. I (cur # rest) k d \<Longrightarrow> k < max_pages \<Longrightarrow>
                 cur \<in> visited_urls d \<Longrightarrow> I rest k d"
    and body: "\<And>cur rest k d f q2 d2. I (cur # rest) k d \<Longrightarrow> k < max_pages \<Longrightarrow>
                 cur \<notin> visited_urls d \<Longrightarrow>
                 crawl_body w v cur rest (Suc k) d = (f, q2, d2) \<Longrightarrow> I q2 (Suc k) d2"
  shows "I q' n' c' \<and> (fl = Next \<or> fl = Raised) \<and>
         (fl = Next \<longrightarrow> \<not> (q' \<noteq> [] \<and> n' < max_pages)) \<and> (fl = Raised \<longrightarrow> n < n')"
  using run init skip body
proof (induction w v max_pages q n c rule: crawl_loop.induct)
  case (1 w v max_pages url_queue pages_crawled c)
  note skip' = "1.prems"(3) and body' = "1.prems"(4)
  show ?case
  proof (cases "url_queue \<noteq> [] \<and> pages_crawled < max_pages")
    case False
    with "1.prems"(1) have "q' = url_queue" "n' = pages_crawled" "c' = c" "fl = Next"
      by (simp_all add: crawl_loop.simps)
    with "1.prems"(2) False show ?thesis by simp
  next
    case True
    then obtain cur rest where q: "url_queue = cur # rest" by (cases url_queue) auto
    from True have lt: "pages_crawled < max_pages" by simp
    from "1.prems"(2) q have I0: "I (cur # rest) pages_crawled c" by simp
    show ?thesis
    proof (cases "cur \<in> visited_urls c")
      case vis: True
      from "1.prems"(1) True vis q
      have r: "crawl_loop w v max_pages rest pages_crawled c = (fl, q', n', c')"
        by (subst (asm) crawl_loop.simps) simp
      from skip'[OF I0 lt vis] have i: "I rest pages_crawled c" .
      have h: "hd url_queue \<in> visited_urls c" using q vis by simp
      from "1.IH"(1)[OF True refl refl h] r i skip' body' q show ?thesis by simp
    next
      case nvis: False
      obtain f q2 d2 where b: "crawl_body w v cur rest (Suc pages_crawled) c = (f, q2, d2)"
        by (cases "crawl_body w v cur rest (Suc pages_crawled) c") auto
      from body'[OF I0 lt nvis b] have i: "I q2 (Suc pages_crawled) d2" .
      have h: "hd url_queue \<notin> visited_urls c" using q nvis by simp
      have b': "(f, (q2, d2)) = crawl_body w v (hd url_queue) (tl url_queue) (Suc pages_crawled) c"
        using b q by simp
      show ?thesis
      proof (cases f)
        case Raised
        with "1.prems"(1) True nvis q b have "q' = q2" "n' = Suc pages_crawled" "c' = d2"
          "fl = Raised"
          by (simp_all add: crawl_loop.simps)
        with i show ?thesis by simp
      next
        case Next
        with "1.prems"(1) True nvis q b
        have r: "crawl_loop w v max_pages q2 (Suc pages_crawled) d2 = (fl, q', n', c')"
          by (subst (asm) crawl_loop.simps) simp
        have "I q' n' c' \<and> (fl = Next \<or> fl = Raised) \<and>
           (fl = Next \<longrightarrow> \<not> (q' \<noteq> [] \<and> n' < max_pages)) \<and>
           (fl = Raised \<longrightarrow> Suc pages_crawled < n')"
          by (rule "1.IH"(2)[OF True refl refl h b' Next refl r i skip' body'])
        then show ?thesis by auto
      next
        case Continue
        with "1.prems"(1) True nvis q b
        have r: "crawl_loop w v max_pages q2 (Suc pages_crawled) d2 = (fl, q', n', c')"
          by (subst (asm) crawl_loop.simps) simp
        have "I q' n' c' \<and> (fl = Next \<or> fl = Raised) \<and>
           (fl = Next \<longrightarrow> \<not> (q' \<noteq> [] \<and> n' < max_pages)) \<and>
           (fl = Raised \<longrightarrow> Suc pages_crawled < n')"
          by (rule "1.IH"(3)[OF True refl refl h b' Continue refl r i skip' body'])
        then show ?thesis by auto
      qed
    qed
  qed
qed

lemma crawl_loop_processed:
  assumes run: "crawl_loop w v max_pages q n c = (fl, q', n', c')"
  shows "\<exists>ev. trace c' = trace c @ ev \<and> distinct (page_gets ev) \<and>
            set (page_gets ev) \<inter> visited_urls c = {} \<and>
            visited_urls c' = visited_urls c \<union> set (page_gets ev) \<and>
            n' = n + length (page_gets ev)"
proof -
  let ?I = "\<lambda>(q::string list) k d. \<exists>ev. trace d = trace c @ ev \<and> distinct (page_gets ev) \<and>
            set (page_gets ev) \<inter> visited_urls c = {} \<and>
            visited_urls d = visited_urls c \<union> set (page_gets ev) \<and>
            k = n + length (page_gets ev)"
  have "?I q' n' c' \<and> (fl = Next \<or> fl = Raised) \<and>
         (fl = Next \<longrightarrow> \<not> (q' \<noteq> [] \<and> n' < max_pages)) \<and> (fl = Raised \<longrightarrow> n < n')"
  proof (rule crawl_loop_invariant[where I = ?I, OF run])
    show "?I q n c" by (intro exI[of _ "[]"]) simp
  next
    fix cur rest k d
    assume "?I (cur # rest) k d"
    then show "?I rest k d" by simp
  next
    fix cur rest k d f q2 d2
    assume i: "?I (cur # rest) k d" and nv: "cur \<notin> visited_urls d"
      and b: "crawl_body w v cur rest (Suc k) d = (f, q2, d2)"
    from i obtain ev where ev: "trace d = trace c @ ev" "distinct (page_gets ev)"
      "set (page_gets ev) \<inter> visited_urls c = {}"
      "visited_urls d = visited_urls c \<union> set (page_gets ev)" "k = n + length (page_gets ev)"
      by blast
    from crawl_body_frame[OF b] obtain ev2 where b2: "visited_urls d2 = insert cur (visited_urls d)"
      "trace d2 = trace d @ Get cur # ev2" "page_gets ev2 = []" by blast
    let ?ev = "ev @ Get cur # ev2"
    have pg: "page_gets ?ev = page_gets ev @ [cur]"
      using b2(3) by (simp add: page_gets_append)
    from nv ev(4) have "cur \<notin> set (page_gets ev)" "cur \<notin> visited_urls c" by auto
    with ev b2 pg have "trace d2 = trace c @ ?ev \<and> distinct (page_gets ?ev) \<and>
            set (page_gets ?ev) \<inter> visited_urls c = {} \<and>
            visited_urls d2 = visited_urls c \<union> set (page_gets ?ev) \<and>
            Suc k = n + length (page_gets ?ev)"
      by auto
    then show "?I q2 (Suc k) d2" by blast
  qed
  then show ?thesis by blast
qed

lemma crawl_loop_frontier:
  assumes run: "crawl_loop w v max_pages [b] 0 c = (fl, q', n', c')"
  shows "distinct q' \<and> (0 < max_pages \<longrightarrow> set q' \<inter> visited_urls c' = {})"
proof -
  let ?I = "\<lambda>(q::string list) (k::nat) d. distinct q \<and>
              (set q \<inter> visited_urls d = {} \<or> (q = [b] \<and> k = 0))"
  have "?I q' n' c' \<and> (fl = Next \<or> fl = Raised) \<and>
         (fl = Next \<longrightarrow> \<not> (q' \<noteq> [] \<and> n' < max_pages)) \<and> (fl = Raised \<longrightarrow> 0 < n')"
  proof (rule crawl_loop_invariant[where I = ?I, OF run])
    show "?I [b] 0 c" by simp
  next
    fix cur rest k d
    assume "?I (cur # rest) k d" "cur \<in> visited_urls d"
    then show "?I rest k d" by auto
  next
    fix cur rest k d f q2 d2
    assume i: "?I (cur # rest) k d" and nv: "cur \<notin> visited_urls d"
      and bd: "crawl_body w v cur rest (Suc k) d = (f, q2, d2)"
    from crawl_body_frame[OF bd] have vis: "visited_urls d2 = insert cur (visited_urls d)"
      by blast
    from crawl_body_queue[OF bd] obtain added where a: "q2 = rest @ added" "distinct added"
      "set added \<inter> set rest = {}" "set added \<inter> insert cur (visited_urls d) = {}"
      by blast
    from i have d: "distinct (cur # rest)" and
      r: "set rest \<inter> visited_urls d = {}" by auto
    from d a have "distinct q2" by auto
    moreover from d r a vis have "set q2 \<inter> visited_urls d2 = {}" by auto
    ultimately show "?I q2 (Suc k) d2" by simp
  qed
  then show ?thesis by auto
qed

text \<open>The progress file is written when the counter is a multiple of 50.\<close>

lemma multiple_of_50: "Suc k mod 50 = 0 \<Longrightarrow> 50 * (Suc k div 50) = Suc k \<and> 50 \<le> Suc k"
proof -
  assume m: "Suc k mod 50 = 0"
  from mult_div_mod_eq[of 50 "Suc k"] m have e: "50 * (Suc k div 50) = Suc k" by simp
  have "50 \<le> Suc k"
  proof (rule ccontr)
    assume "\<not> 50 \<le> Suc k"
    then have "Suc k mod 50 = Suc k" by simp
    with m show False by simp
  qed
  with e show ?thesis by simp
qed

lemma not_multiple_of_50:
  "Suc k mod 50 \<noteq> 0 \<Longrightarrow> Suc k div 50 = k div 50 \<and> (50 \<le> Suc k \<longrightarrow> 50 \<le> k)"
proof -
  assume m: "Suc k mod 50 \<noteq> 0"
  then have d: "Suc k div 50 = k div 50" by (simp add: div_Suc)
  from m have "Suc k \<noteq> 50" by auto
  then have "50 \<le> Suc k \<longrightarrow> 50 \<le> k" by arith
  with d show ?thesis by simp
qed

lemma crawl_loop_checkpoint:
  assumes run: "crawl_loop w v max_pages q 0 c = (fl, q', n', c')"
  shows "(n' < 50 \<longrightarrow> progress_file c' = progress_file c) \<and>
         (50 \<le> n' \<longrightarrow> (\<exists>p. progress_file c' = Some p \<and> p_pages_crawled p = 50 * (n' div 50)))"
proof -
  let ?I = "\<lambda>(q::string list) k d. (k < 50 \<longrightarrow> progress_file d = progress_file c) \<and>
         (50 \<le> k \<longrightarrow> (\<exists>p. progress_file d = Some p \<and> p_pages_crawled p = 50 * (k div 50)))"
  have "?I q' n' c' \<and> (fl = Next \<or> fl = Raised) \<and>
         (fl = Next \<longrightarrow> \<not> (q' \<noteq> [] \<and> n' < max_pages)) \<and> (fl = Raised \<longrightarrow> 0 < n')"
  proof (rule crawl_loop_invariant[where I = ?I, OF run])
    show "?I q 0 c" by simp
  next
    fix cur rest k d
    assume "?I (cur # rest) k d"
    then show "?I rest k d" by simp
  next
    fix cur rest k d f q2 d2
    assume i: "?I (cur # rest) k d"
      and b: "crawl_body w v cur rest (Suc k) d = (f, q2, d2)"
    note p = crawl_body_progress[OF b]
    show "?I q2 (Suc k) d2"
    proof (cases "Suc k mod 50 = 0")
      case True
      with p obtain pr where pr: "progress_file d2 = Some pr" "p_pages_crawled pr = Suc k"
        by blast
      from multiple_of_50[OF True] show ?thesis using pr by auto
    next
      case False
      with p have same: "progress_file d2 = progress_file d" by simp
      from not_multiple_of_50[OF False] i same show ?thesis by auto
    qed
  qed
  then show ?thesis by blast
qed

lemma process_links_pdf_step:
  assumes "is_valid_url w c link" "passes_skip_filter v link" "link \<notin> visited_urls c"
    "link \<notin> set q" "suffix ''.pdf'' (lower link)"
  shows "process_links w v cur (link # links) q c =
     (case check_pdf_content w v link c of
        (Ok (found, m), c1) \<Rightarrow>
          process_links w v cur links q
            (if found
             then record_finding w link ''PDF'' m [] ''PDF document (linked)'' cur c1
             else c1)
      | (_, c1) \<Rightarrow> (Raised, q, c1))"
  using assms by simp

lemma crawl_loop_no_pdf_pages:
  assumes run: "crawl_loop w v max_pages [b] 0 c = (fl, q', n', c')"
  shows "(\<forall>u \<in> set q'. u = b \<or> \<not> suffix ''.pdf'' (lower u)) \<and>
         (\<exists>ev. trace c' = trace c @ ev \<and>
               (\<forall>u \<in> set (page_gets ev). u = b \<or> \<not> suffix ''.pdf'' (lower u)))"
proof -
  let ?I = "\<lambda>(q::string list) (k::nat) d.
         (\<forall>u \<in> set q. u = b \<or> \<not> suffix ''.pdf'' (lower u)) \<and>
         (\<exists>ev. trace d = trace c @ ev \<and>
               (\<forall>u \<in> set (page_gets ev). u = b \<or> \<not> suffix ''.pdf'' (lower u)))"
  have "?I q' n' c' \<and> (fl = Next \<or> fl = Raised) \<and>
         (fl = Next \<longrightarrow> \<not> (q' \<noteq> [] \<and> n' < max_pages)) \<and> (fl = Raised \<longrightarrow> 0 < n')"
  proof (rule crawl_loop_invariant[where I = ?I, OF run])
    show "?I [b] 0 c" by (auto intro: exI[of _ "[]"])
  next
    fix cur rest k d
    assume "?I (cur # rest) k d"
    then show "?I rest k d" by simp
  next
    fix cur rest k d f q2 d2
    assume i: "?I (cur # rest) k d"
      and bd: "crawl_body w v cur rest (Suc k) d = (f, q2, d2)"
    from i obtain ev where ev: "trace d = trace c @ ev"
      "\<forall>u \<in> set (page_gets ev). u = b \<or> \<not> suffix ''.pdf'' (lower u)"
      and cur: "cur = b \<or> \<not> suffix ''.pdf'' (lower cur)"
      and rest: "\<forall>u \<in> set rest. u = b \<or> \<not> suffix ''.pdf'' (lower u)"
      by auto
    from crawl_body_frame[OF bd] obtain ev2 where
      t: "trace d2 = trace d @ Get cur # ev2" "page_gets ev2 = []" by blast
    from crawl_body_queue[OF bd] obtain added where a: "q2 = rest @ added"
      "\<forall>u \<in> set added. \<not> suffix ''.pdf'' (lower u)" by blast
    from a rest have q2: "\<forall>u \<in> set q2. u = b \<or> \<not> suffix ''.pdf'' (lower u)" by auto
    let ?ev = "ev @ Get cur # ev2"
    from t ev cur have "trace d2 = trace c @ ?ev \<and>
        (\<forall>u \<in> set (page_gets ?ev). u = b \<or> \<not> suffix ''.pdf'' (lower u))"
      by (auto simp: page_gets_append)
    then have "\<exists>ev. trace d2 = trace c @ ev \<and>
        (\<forall>u \<in> set (page_gets ev). u = b \<or> \<not> suffix ''.pdf'' (lower u))" by blast
    with q2 show "?I q2 (Suc k) d2" by simp
  qed
  then show ?thesis by blast
qed

section \<open>The baseline crawler on the second site\<close>

lemma base_url_new_crawler: "base_url (new_crawler csv prog) = ''https://www.slusd.us''"
  by (simp add: new_crawler_def init_csv_file_def)

lemma visited_new_crawler: "visited_urls (new_crawler csv prog) = {}"
  by (simp add: new_crawler_def init_csv_file_def)

lemma trace_new_crawler: "trace (new_crawler csv prog) = []"
  by (simp add: new_crawler_def init_csv_file_def)

lemma failing_site_body:
  "crawl_body failing_site Baseline ''https://www.slusd.us'' [] 1 (new_crawler None None) =
     (Next, [''https://www.slusd.us/a'', ''https://www.slusd.us/b''], failing_site_after_root)"
  by code_simp

lemma failing_site_loop:
  "crawl_loop failing_site Baseline 5000 [''https://www.slusd.us''] 0 (new_crawler None None) =
     (Next, [], 3, failing_site_end)"
  by code_simp

section \<open>No revisit\<close>

text \<open>
  Claim C2 (no revisit).  In a run of the loop of \<open>crawl_site\<close>, started with the base URL
  in the queue: the URLs that are processed (one page request each) are pairwise different
  and none of them was visited before the run; the visited set only grows, by exactly
  these URLs; the counter is their number; the queue never holds a URL twice and, when
  the loop ends, holds no visited URL.  In every pass of the body the current URL is put
  into the visited set, and the URLs appended to the queue are pairwise different, were
  not in the queue and are not visited.
\<close>

theorem no_revisit:
  "(crawl_loop w v max_pages [base_url c] 0 c = (fl, q', n', c') \<longrightarrow>
      (\<exists>ev. trace c' = trace c @ ev \<and> distinct (page_gets ev) \<and>
            set (page_gets ev) \<inter> visited_urls c = {} \<and>
            visited_urls c' = visited_urls c \<union> set (page_gets ev) \<and>
            n' = length (page_gets ev)) \<and>
      distinct q' \<and> (0 < max_pages \<longrightarrow> set q' \<inter> visited_urls c' = {})) \<and>
   (cur \<notin> visited_urls d \<and> crawl_body w v cur q n d = (f, q2, d2) \<longrightarrow>
      visited_urls d2 = insert cur (visited_urls d) \<and>
      (\<exists>added. q2 = q @ added \<and> distinct added \<and> set added \<inter> set q = {} \<and>
          set added \<inter> visited_urls d2 = {}))"
proof (intro conjI impI)
  assume run: "crawl_loop w v max_pages [base_url c] 0 c = (fl, q', n', c')"
  from crawl_loop_processed[OF run]
  show "\<exists>ev. trace c' = trace c @ ev \<and> distinct (page_gets ev) \<and>
            set (page_gets ev) \<inter> visited_urls c = {} \<and>
            visited_urls c' = visited_urls c \<union> set (page_gets ev) \<and>
            n' = length (page_gets ev)"
    by simp
  from crawl_loop_frontier[OF run] show "distinct q'" by simp
  assume "0 < max_pages"
  with crawl_loop_frontier[OF run] show "set q' \<inter> visited_urls c' = {}" by simp
next
  assume b: "cur \<notin> visited_urls d \<and> crawl_body w v cur q n d = (f, q2, d2)"
  then have bd: "crawl_body w v cur q n d = (f, q2, d2)" by simp
  from crawl_body_frame[OF bd] show vis: "visited_urls d2 = insert cur (visited_urls d)"
    by blast
  from crawl_body_queue[OF bd] vis
  show "\<exists>added. q2 = q @ added \<and> distinct added \<and> set added \<inter> set q = {} \<and>
          set added \<inter> visited_urls d2 = {}"
    by auto
qed

theorem no_revisit_witness:
  "crawl_loop failing_site Baseline 5000 [base_url (new_crawler None None)] 0
     (new_crawler None None) = (Next, [], 3, failing_site_end) \<and>
   (\<exists>ev. trace failing_site_end = trace (new_crawler None None) @ ev \<and>
         distinct (page_gets ev) \<and>
         set (page_gets ev) \<inter> visited_urls (new_crawler None None) = {} \<and>
         visited_urls failing_site_end =
           visited_urls (new_crawler None None) \<union> set (page_gets ev) \<and>
         3 = length (page_gets ev)) \<and>
   page_gets (trace failing_site_end) =
     [''https://www.slusd.us'', ''https://www.slusd.us/a'', ''https://www.slusd.us/b''] \<and>
   ''https://www.slusd.us'' \<notin> visited_urls (new_crawler None None) \<and>
   crawl_body failing_site Baseline ''https://www.slusd.us'' [] 1 (new_crawler None None) =
     (Next, [''https://www.slusd.us/a'', ''https://www.slusd.us/b''], failing_site_after_root) \<and>
   visited_urls failing_site_after_root =
     insert ''https://www.slusd.us'' (visited_urls (new_crawler None None)) \<and>
   (\<exists>added. [''https://www.slusd.us/a'', ''https://www.slusd.us/b''] = [] @ added \<and>
        distinct added \<and> set added \<inter> set [] = {} \<and>
        set added \<inter> visited_urls failing_site_after_root = {})"
proof -
  have run: "crawl_loop failing_site Baseline 5000 [base_url (new_crawler None None)] 0
     (new_crawler None None) = (Next, [], 3, failing_site_end)"
    by (simp add: base_url_new_crawler failing_site_loop)
  have nv: "''https://www.slusd.us'' \<notin> visited_urls (new_crawler None None)"
    by (simp add: visited_new_crawler)
  have pg: "page_gets (trace failing_site_end) =
     [''https://www.slusd.us'', ''https://www.slusd.us/a'', ''https://www.slusd.us/b'']"
    by (simp add: failing_site_end_def)
  note body = failing_site_body
  from no_revisit[of failing_site Baseline 5000 "new_crawler None None" Next "[]" 3
      failing_site_end "''https://www.slusd.us''" "new_crawler None None" "[]" 1 Next
      "[''https://www.slusd.us/a'', ''https://www.slusd.us/b'']" failing_site_after_root]
    run nv body pg
  show ?thesis by (simp add: visited_new_crawler)
qed

section \<open>Fetch errors\<close>

lemma get_page_content_Failed:
  "session_get_page w (length (trace c)) u = Failed \<Longrightarrow>
     get_page_content w u c = (Ok None, c\<lparr>trace := trace c @ [Get u]\<rparr>)"
  by (simp add: get_page_content_def Let_def)

lemma crawl_page_Failed:
  "session_get_page w (length (trace c)) u = Failed \<Longrightarrow>
     crawl_page w v u q c = (Continue, q, c\<lparr>trace := trace c @ [Get u]\<rparr>)"
  by (simp add: crawl_page_def get_page_content_Failed)

text \<open>
  Claim C5 (fetch-error propagation).  Let the loop be running (\<open>n < max_pages\<close>) with a
  current URL that is not yet visited and whose fetch fails.  Then \<open>get_page_content\<close>
  returns \<open>(None, None)\<close>; the body of the loop ends with \<open>continue\<close>, leaving the queue
  as it is; the loop goes on with the rest of the queue and the counter raised by one; no
  finding is recorded and nothing is written to the CSV file; the URL is in the visited
  set; the only request made is the page request.
\<close>

theorem fetch_error_skips:
  "n < max_pages \<and> cur \<notin> visited_urls c \<and>
   session_get_page w (length (trace c)) cur = Failed \<longrightarrow>
     get_page_content w cur c = (Ok None, c\<lparr>trace := trace c @ [Get cur]\<rparr>) \<and>
     (\<exists>c'. crawl_body w v cur q (Suc n) c = (Continue, q, c') \<and>
           crawl_loop w v max_pages (cur # q) n c = crawl_loop w v max_pages q (Suc n) c' \<and>
           found_pages c' = found_pages c \<and> found_pdfs c' = found_pdfs c \<and>
           output_file c' = output_file c \<and>
           visited_urls c' = insert cur (visited_urls c) \<and>
           trace c' = trace c @ [Get cur])"
proof (intro impI)
  assume h: "n < max_pages \<and> cur \<notin> visited_urls c \<and>
   session_get_page w (length (trace c)) cur = Failed"
  then have lt: "n < max_pages" and nv: "cur \<notin> visited_urls c"
    and f: "session_get_page w (length (trace c)) cur = Failed" by simp_all
  let ?c2 = "if Suc n mod 50 = 0
             then save_progress w (Suc n) cur (c\<lparr>visited_urls := insert cur (visited_urls c)\<rparr>)
             else c\<lparr>visited_urls := insert cur (visited_urls c)\<rparr>"
  let ?c' = "?c2\<lparr>trace := trace ?c2 @ [Get cur]\<rparr>"
  have t2: "trace ?c2 = trace c" by (simp add: save_progress_def)
  with f have "session_get_page w (length (trace ?c2)) cur = Failed" by simp
  from crawl_page_Failed[OF this] have "crawl_page w v cur q ?c2 = (Continue, q, ?c')" .
  then have body: "crawl_body w v cur q (Suc n) c = (Continue, q, ?c')"
    by (simp add: crawl_body_def Let_def)
  have loop: "crawl_loop w v max_pages (cur # q) n c = crawl_loop w v max_pages q (Suc n) ?c'"
    using lt nv body by (subst crawl_loop.simps) simp
  have frame: "found_pages ?c' = found_pages c \<and> found_pdfs ?c' = found_pdfs c \<and>
           output_file ?c' = output_file c \<and>
           visited_urls ?c' = insert cur (visited_urls c) \<and>
           trace ?c' = trace c @ [Get cur]"
    by (simp add: save_progress_def)
  from body loop frame
  have "\<exists>c'. crawl_body w v cur q (Suc n) c = (Continue, q, c') \<and>
           crawl_loop w v max_pages (cur # q) n c = crawl_loop w v max_pages q (Suc n) c' \<and>
           found_pages c' = found_pages c \<and> found_pdfs c' = found_pdfs c \<and>
           output_file c' = output_file c \<and>
           visited_urls c' = insert cur (visited_urls c) \<and>
           trace c' = trace c @ [Get cur]"
    by blast
  with get_page_content_Failed[OF f]
  show "get_page_content w cur c = (Ok None, c\<lparr>trace := trace c @ [Get cur]\<rparr>) \<and>
     (\<exists>c'. crawl_body w v cur q (Suc n) c = (Continue, q, c') \<and>
           crawl_loop w v max_pages (cur # q) n c = crawl_loop w v max_pages q (Suc n) c' \<and>
           found_pages c' = found_pages c \<and> found_pdfs c' = found_pdfs c \<and>
           output_file c' = output_file c \<and>
           visited_urls c' = insert cur (visited_urls c) \<and>
           trace c' = trace c @ [Get cur])"
    by simp
qed

theorem fetch_error_skips_witness:
  "(1::nat) < 5000 \<and> ''https://www.slusd.us/a'' \<notin> visited_urls failing_site_after_root \<and>
   session_get_page failing_site (length (trace failing_site_after_root))
     ''https://www.slusd.us/a'' = Failed \<and>
   get_page_content failing_site ''https://www.slusd.us/a'' failing_site_after_root =
     (Ok None, failing_site_after_root\<lparr>trace := trace failing_site_after_root @
        [Get ''https://www.slusd.us/a'']\<rparr>) \<and>
   (\<exists>c'. crawl_body failing_site Baseline ''https://www.slusd.us/a'' [''https://www.slusd.us/b'']
           (Suc 1) failing_site_after_root = (Continue, [''https://www.slusd.us/b''], c') \<and>
         crawl_loop failing_site Baseline 5000
           (''https://www.slusd.us/a'' # [''https://www.slusd.us/b'']) 1 failing_site_after_root =
         crawl_loop failing_site Baseline 5000 [''https://www.slusd.us/b''] (Suc 1) c' \<and>
         found_pages c' = found_pages failing_site_after_root \<and>
         found_pdfs c' = found_pdfs failing_site_after_root \<and>
         output_file c' = output_file failing_site_after_root \<and>
         visited_urls c' = insert ''https://www.slusd.us/a'' (visited_urls failing_site_after_root) \<and>
         trace c' = trace failing_site_after_root @ [Get ''https://www.slusd.us/a''])"
proof -
  have a: "(1::nat) < 5000" by simp
  have b: "''https://www.slusd.us/a'' \<notin> visited_urls failing_site_after_root"
    by (simp add: failing_site_after_root_def)
  have c: "session_get_page failing_site (length (trace failing_site_after_root))
     ''https://www.slusd.us/a'' = Failed"
    by (simp add: failing_site_def)
  from a b c fetch_error_skips[of 1 5000 "''https://www.slusd.us/a''" failing_site_after_root
      failing_site Baseline "[''https://www.slusd.us/b'']"]
  show ?thesis by blast
qed

lemma interrupted_site_loop:
  "crawl_loop interrupted_site Baseline 5000 [''https://www.slusd.us''] 0 (new_crawler None None) =
     (Raised, [], 3, interrupted_site_end)"
  by code_simp

section \<open>Interruption\<close>

lemma progress_new_crawler: "progress_file (new_crawler csv prog) = prog"
  by (simp add: new_crawler_def init_csv_file_def)

text \<open>
  Claim C4 (interruption), as the code has it.  When \<open>KeyboardInterrupt\<close> ends the loop,
  \<open>main\<close> catches it and returns with the crawler as the interrupt left it: nothing is
  written after the interrupt.  The counter is the number of URLs processed so far.  The
  progress file is then the one found before the run when fewer than 50 URLs were
  processed, and otherwise the snapshot written at the last multiple of 50.  Only when the
  loop ends normally is the progress file written once more, with the counter and with
  \<open>COMPLETED\<close> in place of the current URL.
\<close>

theorem interrupt_handling:
  "(crawl_loop w v (max_pages_of v) [base_url (new_crawler csv prog)] 0 (new_crawler csv prog) =
      (Raised, q', n', c') \<longrightarrow>
        main w v csv prog = (Interrupted_by_user, c') \<and>
        n' = length (page_gets (trace c')) \<and>
        (n' < 50 \<longrightarrow> progress_file c' = prog) \<and>
        (50 \<le> n' \<longrightarrow>
           (\<exists>p. progress_file c' = Some p \<and> p_pages_crawled p = 50 * (n' div 50)))) \<and>
   (crawl_loop w v (max_pages_of v) [base_url (new_crawler csv prog)] 0 (new_crawler csv prog) =
      (Next, q', n', c') \<longrightarrow>
        main w v csv prog = (Summary_printed, save_progress w n' ''COMPLETED'' c') \<and>
        n' = length (page_gets (trace c')) \<and>
        (\<exists>p. progress_file (save_progress w n' ''COMPLETED'' c') = Some p \<and>
             p_pages_crawled p = n' \<and> p_current_url p = ''COMPLETED''))"
proof (rule conjI; rule impI)
  assume run: "crawl_loop w v (max_pages_of v) [base_url (new_crawler csv prog)] 0
      (new_crawler csv prog) = (Raised, q', n', c')"
  then have a: "main w v csv prog = (Interrupted_by_user, c')"
    by (simp add: main_def crawl_site_def)
  from crawl_loop_processed[OF run] have b: "n' = length (page_gets (trace c'))"
    by (auto simp: trace_new_crawler)
  from crawl_loop_checkpoint[OF run] have c: "n' < 50 \<longrightarrow> progress_file c' = prog"
    by (simp add: progress_new_crawler)
  from crawl_loop_checkpoint[OF run]
  have d: "50 \<le> n' \<longrightarrow>
     (\<exists>p. progress_file c' = Some p \<and> p_pages_crawled p = 50 * (n' div 50))"
    by simp
  from a b c d
  show "main w v csv prog = (Interrupted_by_user, c') \<and>
        n' = length (page_gets (trace c')) \<and>
        (n' < 50 \<longrightarrow> progress_file c' = prog) \<and>
        (50 \<le> n' \<longrightarrow>
           (\<exists>p. progress_file c' = Some p \<and> p_pages_crawled p = 50 * (n' div 50)))"
    by blast
next
  assume run: "crawl_loop w v (max_pages_of v) [base_url (new_crawler csv prog)] 0
      (new_crawler csv prog) = (Next, q', n', c')"
  then have a: "main w v csv prog = (Summary_printed, save_progress w n' ''COMPLETED'' c')"
    by (simp add: main_def crawl_site_def)
  from crawl_loop_processed[OF run] have b: "n' = length (page_gets (trace c'))"
    by (auto simp: trace_new_crawler)
  have c: "\<exists>p. progress_file (save_progress w n' ''COMPLETED'' c') = Some p \<and>
             p_pages_crawled p = n' \<and> p_current_url p = ''COMPLETED''"
    by (simp add: save_progress_def)
  from a b c
  show "main w v csv prog = (Summary_printed, save_progress w n' ''COMPLETED'' c') \<and>
        n' = length (page_gets (trace c')) \<and>
        (\<exists>p. progress_file (save_progress w n' ''COMPLETED'' c') = Some p \<and>
             p_pages_crawled p = n' \<and> p_current_url p = ''COMPLETED'')"
    by blast
qed

theorem interrupt_handling_witness:
  "crawl_loop interrupted_site Baseline (max_pages_of Baseline)
     [base_url (new_crawler None None)] 0 (new_crawler None None) =
     (Raised, [], 3, interrupted_site_end) \<and>
   main interrupted_site Baseline None None = (Interrupted_by_user, interrupted_site_end) \<and>
   (3::nat) = length (page_gets (trace interrupted_site_end)) \<and>
   (3::nat) < 50 \<and> progress_file interrupted_site_end = None \<and>
   crawl_loop failing_site Baseline (max_pages_of Baseline)
     [base_url (new_crawler None None)] 0 (new_crawler None None) =
     (Next, [], 3, failing_site_end) \<and>
   main failing_site Baseline None None =
     (Summary_printed, save_progress failing_site 3 ''COMPLETED'' failing_site_end) \<and>
   (\<exists>p. progress_file (save_progress failing_site 3 ''COMPLETED'' failing_site_end) = Some p \<and>
        p_pages_crawled p = 3 \<and> p_current_url p = ''COMPLETED'')"
proof -
  have r1: "crawl_loop interrupted_site Baseline (max_pages_of Baseline)
     [base_url (new_crawler None None)] 0 (new_crawler None None) =
     (Raised, [], 3, interrupted_site_end)"
    by (simp add: max_pages_of_def base_url_new_crawler interrupted_site_loop)
  have r2: "crawl_loop failing_site Baseline (max_pages_of Baseline)
     [base_url (new_crawler None None)] 0 (new_crawler None None) =
     (Next, [], 3, failing_site_end)"
    by (simp add: max_pages_of_def base_url_new_crawler failing_site_loop)
  from r1 r2
    interrupt_handling[of interrupted_site Baseline None None "[]" 3 interrupted_site_end]
    interrupt_handling[of failing_site Baseline None None "[]" 3 failing_site_end]
  show ?thesis by simp
qed

text \<open>
  The claim as stated fails: on the second site with an interrupt during the third page
  request, on a disk without files, \<open>main\<close> ends in the \<open>KeyboardInterrupt\<close> branch after
  three URLs were processed, and there is no progress file at all.
\<close>

theorem interrupt_leaves_no_checkpoint:
  "main interrupted_site Baseline None None = (Interrupted_by_user, interrupted_site_end) \<and>
   page_gets (trace interrupted_site_end) =
     [''https://www.slusd.us'', ''https://www.slusd.us/a'', ''https://www.slusd.us/b''] \<and>
   progress_file interrupted_site_end = None"
  by (simp add: main_def crawl_site_def max_pages_of_def base_url_new_crawler
      interrupted_site_loop interrupted_site_end_def)

section \<open>Rate limiting\<close>

text \<open>
  Claim C9 (rate limiting between iterations) on the second site: the baseline crawler
  requests \<open>/a\<close>, the fetch fails, and the next request, for \<open>/b\<close>, follows with no
  sleep in between.
\<close>

theorem failed_fetch_is_not_followed_by_sleep:
  "trace (snd (main failing_site Baseline None None)) =
     [Get ''https://www.slusd.us'', Sleep 500, Get ''https://www.slusd.us/a'',
      Get ''https://www.slusd.us/b'', Sleep 500]"
  by (simp add: main_def crawl_site_def max_pages_of_def base_url_new_crawler
      failing_site_loop failing_site_end_def save_progress_def)

section \<open>Documents\<close>

lemma pdf_text_acc: "pdf_text pages acc = acc @ concat (List.map_filter id pages)"
  by (induction pages arbitrary: acc) (auto simp: List.map_filter_simps split: option.splits)

lemma check_fast_without_literal:
  "\<not> occurs_in quick text \<Longrightarrow> check_address_in_text_fast quick pats text = (False, None)"
  by (simp add: check_address_in_text_fast_def)

lemma scan_pages_find:
  "scan_pages pages =
     (case find (\<lambda>t. fst (check_address_in_text_fast quick_check juniper_patterns t))
             (List.map_filter id pages) of
        None \<Rightarrow> (False, None)
      | Some t \<Rightarrow> check_address_in_text_fast quick_check juniper_patterns t)"
proof (induction pages)
  case Nil
  then show ?case by (simp add: List.map_filter_simps)
next
  case (Cons page pages)
  show ?case
  proof (cases page)
    case None
    with Cons.IH show ?thesis by (simp add: List.map_filter_simps)
  next
    case (Some t)
    obtain b m where r: "check_address_in_text_fast quick_check juniper_patterns t = (b, m)"
      by (cases "check_address_in_text_fast quick_check juniper_patterns t")
    show ?thesis
    proof (cases "occurs_in quick_check t")
      case True
      with Some r Cons.IH show ?thesis
        by (cases b) (simp_all add: List.map_filter_simps)
    next
      case False
      from check_fast_without_literal[OF False, of juniper_patterns] r
      have "b = False" by simp
      with Some r False Cons.IH show ?thesis by (simp add: List.map_filter_simps)
    qed
  qed
qed

lemma check_pdf_content_fast_Ok:
  assumes "session_head w (length (trace c)) url = Ok len"
    and "\<not> (case len of None \<Rightarrow> False | Some n \<Rightarrow> n > 50 * (1024 * 1024))"
    and "session_get_pdf w (Suc (length (trace c))) url = Ok pages"
  shows "check_pdf_content_fast w url c =
           (Ok (scan_pages pages), c\<lparr>trace := trace c @ [Head url, GetPdf url]\<rparr>)"
  using assms by (simp add: check_pdf_content_fast_def Let_def)

lemma check_pdf_content_baseline_Ok:
  assumes "session_get_pdf w (length (trace c)) url = Ok pages"
  shows "check_pdf_content_baseline w url c =
           (Ok (check_address_in_text address_patterns (pdf_text pages [])),
            c\<lparr>trace := trace c @ [GetPdf url]\<rparr>)"
  using assms by (simp add: check_pdf_content_baseline_def Let_def)

text \<open>
  Claim C7 (partial document resilience), as the code has it.  The text that the baseline
  crawler builds from a document is the concatenation, in page order, of the pages whose
  extraction succeeds, and this text is what it matches.  No exception leaves
  \<open>check_pdf_content\<close> in either crawler: it returns, or \<open>KeyboardInterrupt\<close> passes.
  The fast crawler, once the size probe lets the document through, also skips the pages
  that fail, but it matches every page on its own, in page order, and returns the result
  of the first page in which a pattern matches.
\<close>

theorem pdf_page_resilience:
  "pdf_text pages [] = concat (List.map_filter id pages) \<and>
   fst (check_pdf_content w v url c) \<noteq> Failed \<and>
   (session_get_pdf w (length (trace c)) url = Ok pages \<longrightarrow>
      fst (check_pdf_content w Baseline url c) =
        Ok (check_address_in_text address_patterns (concat (List.map_filter id pages)))) \<and>
   (session_head w (length (trace c)) url = Ok len \<and>
    \<not> (case len of None \<Rightarrow> False | Some n \<Rightarrow> n > 50 * (1024 * 1024)) \<and>
    session_get_pdf w (Suc (length (trace c))) url = Ok pages \<longrightarrow>
      fst (check_pdf_content w Fast url c) = Ok (scan_pages pages)) \<and>
   scan_pages pages =
     (case find (\<lambda>t. fst (check_address_in_text_fast quick_check juniper_patterns t))
             (List.map_filter id pages) of
        None \<Rightarrow> (False, None)
      | Some t \<Rightarrow> check_address_in_text_fast quick_check juniper_patterns t)"
proof -
  have a: "pdf_text pages [] = concat (List.map_filter id pages)"
    by (simp add: pdf_text_acc)
  have b: "fst (check_pdf_content w v url c) \<noteq> Failed"
    by (rule check_pdf_content_not_Failed)
  have c: "session_get_pdf w (length (trace c)) url = Ok pages \<longrightarrow>
      fst (check_pdf_content w Baseline url c) =
        Ok (check_address_in_text address_patterns (concat (List.map_filter id pages)))"
    by (simp add: check_pdf_content_def check_pdf_content_baseline_Ok a)
  have d: "session_head w (length (trace c)) url = Ok len \<and>
    \<not> (case len of None \<Rightarrow> False | Some n \<Rightarrow> n > 50 * (1024 * 1024)) \<and>
    session_get_pdf w (Suc (length (trace c))) url = Ok pages \<longrightarrow>
      fst (check_pdf_content w Fast url c) = Ok (scan_pages pages)"
    by (simp add: check_pdf_content_def check_pdf_content_fast_Ok)
  from a b c d scan_pages_find[of pages] show ?thesis by blast
qed

lemma ten_pages_text:
  "concat (List.map_filter id ten_pages) =
     ''one two four five six 835 E. 14th St. and 14735 Juniper St. nine ten''"
  by code_simp

lemma ten_pages_baseline:
  "check_address_in_text address_patterns
     ''one two four five six 835 E. 14th St. and 14735 Juniper St. nine ten'' =
     (True, Some ''835 E. 14th St.'')"
  by code_simp

lemma ten_pages_fast: "scan_pages ten_pages = (True, Some ''14735 Juniper St.'')"
  by code_simp

theorem pdf_page_resilience_witness:
  "pdf_text ten_pages [] =
     ''one two four five six 835 E. 14th St. and 14735 Juniper St. nine ten'' \<and>
   session_get_pdf (pdf_site ten_pages) (length (trace (new_crawler None None)))
     ''https://www.slusd.us/doc.pdf'' = Ok ten_pages \<and>
   fst (check_pdf_content (pdf_site ten_pages) Baseline ''https://www.slusd.us/doc.pdf''
          (new_crawler None None)) = Ok (True, Some ''835 E. 14th St.'') \<and>
   session_head (pdf_site ten_pages) (length (trace (new_crawler None None)))
     ''https://www.slusd.us/doc.pdf'' = Ok (Some 4096) \<and>
   (4096::int) \<le> 50 * (1024 * 1024) \<and>
   fst (check_pdf_content (pdf_site ten_pages) Fast ''https://www.slusd.us/doc.pdf''
          (new_crawler None None)) = Ok (True, Some ''14735 Juniper St.'')"
proof -
  have g: "session_get_pdf (pdf_site ten_pages) t u = Ok ten_pages" for t u
    by (simp add: pdf_site_def)
  have h: "session_head (pdf_site ten_pages) t u = Ok (Some 4096)" for t u
    by (simp add: pdf_site_def leaf_site_def)
  have s: "\<not> (case Some (4096::int) of None \<Rightarrow> False | Some n \<Rightarrow> n > 50 * (1024 * 1024))"
    by simp
  from pdf_page_resilience[of ten_pages "pdf_site ten_pages" Baseline
      "''https://www.slusd.us/doc.pdf''" "new_crawler None None" "Some 4096"]
    g h s ten_pages_text ten_pages_baseline ten_pages_fast
  show ?thesis by simp
qed

lemma split_pages_text:
  "check_address_in_text_fast quick_check juniper_patterns (pdf_text split_pages []) =
     (True, Some ''14735 Juniper St.'')"
  by code_simp

lemma split_pages_scan: "scan_pages split_pages = (False, None)"
  by code_simp

text \<open>
  The claim as stated fails for the fast crawler: the address runs over the page break of
  a two-page document, both pages are extracted, the concatenation of the pages contains
  the address, and \<open>check_pdf_content\<close> finds nothing.
\<close>

theorem fast_crawler_checks_page_by_page:
  "fst (check_pdf_content (pdf_site split_pages) Fast ''https://www.slusd.us/doc.pdf''
          (new_crawler None None)) = Ok (False, None) \<and>
   pdf_text split_pages [] = ''Our office: 14735 Juniper St., San Leandro'' \<and>
   check_address Fast (pdf_text split_pages []) = (True, Some ''14735 Juniper St.'')"
proof -
  have h: "session_head (pdf_site split_pages) t u = Ok (Some 4096)" for t u
    by (simp add: pdf_site_def leaf_site_def)
  have g: "session_get_pdf (pdf_site split_pages) t u = Ok split_pages" for t u
    by (simp add: pdf_site_def)
  have "check_pdf_content_fast (pdf_site split_pages) ''https://www.slusd.us/doc.pdf''
          (new_crawler None None) =
        (Ok (scan_pages split_pages), (new_crawler None None)\<lparr>trace :=
            trace (new_crawler None None) @
            [Head ''https://www.slusd.us/doc.pdf'', GetPdf ''https://www.slusd.us/doc.pdf'']\<rparr>)"
    by (rule check_pdf_content_fast_Ok[OF h _ g]) simp
  then have a: "fst (check_pdf_content (pdf_site split_pages) Fast ''https://www.slusd.us/doc.pdf''
          (new_crawler None None)) = Ok (False, None)"
    by (simp add: check_pdf_content_def split_pages_scan)
  have b: "pdf_text split_pages [] = ''Our office: 14735 Juniper St., San Leandro''"
    by (simp add: split_pages_def)
  from a b split_pages_text show ?thesis by (simp add: check_address_def)
qed

section \<open>The findings file\<close>

lemma writerow_type: "writerow f ! Suc 0 = f_type f"
  by (simp add: writerow_def)

lemma crawl_loop_csv:
  assumes run: "crawl_loop w v max_pages q n c = (fl, q', n', c')"
    and rows: "output_file c = Some rows"
  shows "\<exists>new. output_file c' = Some (rows @ new) \<and>
           (\<forall>r \<in> set new. r ! 1 = ''HTML Page'' \<or> r ! 1 = ''PDF'') \<and>
           length (found_pages c') + length (found_pdfs c') =
             length (found_pages c) + length (found_pdfs c) + length new"
proof -
  let ?I = "\<lambda>(q::string list) (k::nat) d. \<exists>new. output_file d = Some (rows @ new) \<and>
           (\<forall>r \<in> set new. r ! 1 = ''HTML Page'' \<or> r ! 1 = ''PDF'') \<and>
           length (found_pages d) + length (found_pdfs d) =
             length (found_pages c) + length (found_pdfs c) + length new"
  have "?I q' n' c' \<and> (fl = Next \<or> fl = Raised) \<and>
         (fl = Next \<longrightarrow> \<not> (q' \<noteq> [] \<and> n' < max_pages)) \<and> (fl = Raised \<longrightarrow> n < n')"
  proof (rule crawl_loop_invariant[where I = ?I, OF run])
    from rows show "?I q n c" by (intro exI[of _ "[]"]) simp
  next
    fix cur rest k d
    assume "?I (cur # rest) k d"
    then show "?I rest k d" by simp
  next
    fix cur rest k d f q2 d2
    assume i: "?I (cur # rest) k d"
      and b: "crawl_body w v cur rest (Suc k) d = (f, q2, d2)"
    from i obtain new where new: "output_file d = Some (rows @ new)"
      "\<forall>r \<in> set new. r ! 1 = ''HTML Page'' \<or> r ! 1 = ''PDF''"
      "length (found_pages d) + length (found_pdfs d) =
             length (found_pages c) + length (found_pdfs c) + length new"
      by blast
    from crawl_body_found[OF b new(1)] obtain ps fs where
      r: "found_pages d2 = found_pages d @ ps" "found_pdfs d2 = found_pdfs d @ fs"
         "output_file d2 = Some ((rows @ new) @ map writerow (ps @ fs))"
         "\<forall>f \<in> set ps. f_type f = ''HTML Page''" "\<forall>f \<in> set fs. f_type f = ''PDF''"
      by blast
    let ?new = "new @ map writerow (ps @ fs)"
    from r(4,5) have "\<forall>r \<in> set (map writerow (ps @ fs)). r ! 1 = ''HTML Page'' \<or> r ! 1 = ''PDF''"
      by (auto simp: writerow_type)
    with new r have "output_file d2 = Some (rows @ ?new) \<and>
           (\<forall>r \<in> set ?new. r ! 1 = ''HTML Page'' \<or> r ! 1 = ''PDF'') \<and>
           length (found_pages d2) + length (found_pdfs d2) =
             length (found_pages c) + length (found_pdfs c) + length ?new"
      by auto
    then show "?I q2 (Suc k) d2" by blast
  qed
  then show ?thesis by blast
qed

lemma main_csv:
  assumes "main w v (Some rows) prog = (e, c')"
  shows "\<exists>new. output_file c' = Some (rows @ new) \<and> fieldnames \<notin> set new \<and>
           length new = length (found_pages c') + length (found_pdfs c')"
proof -
  let ?c = "new_crawler (Some rows) prog"
  have c0: "output_file ?c = Some rows" "found_pages ?c = []" "found_pdfs ?c = []"
    by (simp_all add: new_crawler_def init_csv_file_def)
  obtain fl q' n' d where run: "crawl_loop w v (max_pages_of v) [base_url ?c] 0 ?c = (fl, q', n', d)"
    by (cases "crawl_loop w v (max_pages_of v) [base_url ?c] 0 ?c") auto
  from crawl_loop_csv[OF run c0(1)] c0 obtain new where new: "output_file d = Some (rows @ new)"
    "\<forall>r \<in> set new. r ! 1 = ''HTML Page'' \<or> r ! 1 = ''PDF''"
    "length (found_pages d) + length (found_pdfs d) = length new"
    by auto
  have "fieldnames ! 1 = ''Type''" by (simp add: fieldnames_def)
  with new(2) have nh: "fieldnames \<notin> set new" by auto
  from assms run have "c' = d \<or> c' = save_progress w n' ''COMPLETED'' d"
    by (cases fl) (auto simp: main_def crawl_site_def)
  then have "output_file c' = output_file d \<and> found_pages c' = found_pages d \<and>
     found_pdfs c' = found_pdfs d"
    by (auto simp: save_progress_frame)
  with new nh show ?thesis by auto
qed

lemma run_repeatedly_csv:
  "run_repeatedly v ws (Some rows) prog = (csv', prog') \<Longrightarrow>
     \<exists>new. csv' = Some (rows @ new) \<and> fieldnames \<notin> set new"
proof (induction ws arbitrary: rows prog)
  case Nil
  then have "csv' = Some (rows @ []) \<and> fieldnames \<notin> set []" by simp
  then show ?case by blast
next
  case (Cons w ws)
  obtain e c where m: "main w v (Some rows) prog = (e, c)"
    by (cases "main w v (Some rows) prog")
  from main_csv[OF m] obtain new where new: "output_file c = Some (rows @ new)"
    "fieldnames \<notin> set new" by blast
  from Cons.prems m new have "run_repeatedly v ws (Some (rows @ new)) (progress_file c) = (csv', prog')"
    by simp
  from Cons.IH[OF this] obtain new' where "csv' = Some ((rows @ new) @ new')"
    "fieldnames \<notin> set new'" by blast
  with new have "csv' = Some (rows @ (new @ new')) \<and> fieldnames \<notin> set (new @ new')" by simp
  then show ?case by blast
qed

lemma count_list_append: "count_list (xs @ ys) a = count_list xs a + count_list ys a"
  by (induction xs) simp_all

lemma count_list_absent: "a \<notin> set xs \<Longrightarrow> count_list xs a = 0"
  by (induction xs) auto

lemma new_crawler_header: "new_crawler (Some [fieldnames]) prog = new_crawler None prog"
  by (simp add: new_crawler_def init_csv_file_def)

lemma main_fresh: "main w v None prog = main w v (Some [fieldnames]) prog"
  by (simp add: main_def new_crawler_header)

lemma run_repeatedly_fresh:
  "run_repeatedly v (w # ws) None prog = run_repeatedly v (w # ws) (Some [fieldnames]) prog"
  by (simp add: main_fresh)

text \<open>
  Claim C8 (idempotent initialisation of the findings store).  Creating the crawler on a
  disk without findings file writes the header row, and creating it on an existing file
  leaves the file as it is: \<open>init_csv_file\<close> writes the header row when the file does not
  exist and changes nothing when it exists; \<open>append_to_csv\<close> adds the record as a new last
  row.  A run of \<open>main\<close> on an existing file leaves its rows in place and appends one row
  for each finding, none of them the header row; so after any number of runs the file still
  begins with the old rows, the header row occurs as often as before, and the file has not
  become shorter.  A run that starts without a file leaves the header row followed by one
  row for each finding, and after any number of further runs the header row occurs once.
\<close>

theorem findings_store_init_idempotent:
  "(output_file c = None \<longrightarrow> output_file (init_csv_file c) = Some [fieldnames]) \<and>
   (output_file c = Some rows \<longrightarrow>
      init_csv_file c = c \<and> output_file (append_to_csv r c) = Some (rows @ [writerow r])) \<and>
   (main w v (Some rows) prog = (e, c') \<longrightarrow>
      (\<exists>new. output_file c' = Some (rows @ new) \<and> fieldnames \<notin> set new \<and>
           length new = length (found_pages c') + length (found_pdfs c'))) \<and>
   (run_repeatedly v ws (Some rows) prog = (csv', prog') \<longrightarrow>
      (\<exists>new. csv' = Some (rows @ new) \<and> fieldnames \<notin> set new \<and>
           count_list (rows @ new) fieldnames = count_list rows fieldnames \<and>
           length rows \<le> length (rows @ new))) \<and>
   output_file (new_crawler None prog) = Some [fieldnames] \<and>
   output_file (new_crawler (Some rows) prog) = Some rows \<and>
   (main w v None prog = (e, c') \<longrightarrow>
      (\<exists>new. output_file c' = Some ([fieldnames] @ new) \<and> fieldnames \<notin> set new \<and>
           length new = length (found_pages c') + length (found_pdfs c'))) \<and>
   (run_repeatedly v (w # ws) None prog = (csv', prog') \<longrightarrow>
      (\<exists>new. csv' = Some ([fieldnames] @ new) \<and> fieldnames \<notin> set new \<and>
           count_list ([fieldnames] @ new) fieldnames = 1))"
proof -
  have a: "output_file c = None \<longrightarrow> output_file (init_csv_file c) = Some [fieldnames]"
    by (simp add: init_csv_file_def)
  have b: "output_file c = Some rows \<longrightarrow>
      init_csv_file c = c \<and> output_file (append_to_csv r c) = Some (rows @ [writerow r])"
    by (simp add: init_csv_file_def append_to_csv_def)
  have c: "main w v (Some rows) prog = (e, c') \<longrightarrow>
      (\<exists>new. output_file c' = Some (rows @ new) \<and> fieldnames \<notin> set new \<and>
           length new = length (found_pages c') + length (found_pdfs c'))"
    using main_csv by blast
  have d: "run_repeatedly v ws (Some rows) prog = (csv', prog') \<longrightarrow>
      (\<exists>new. csv' = Some (rows @ new) \<and> fieldnames \<notin> set new \<and>
           count_list (rows @ new) fieldnames = count_list rows fieldnames \<and>
           length rows \<le> length (rows @ new))"
  proof
    assume "run_repeatedly v ws (Some rows) prog = (csv', prog')"
    from run_repeatedly_csv[OF this] obtain new where "csv' = Some (rows @ new)"
      "fieldnames \<notin> set new" by blast
    then have "csv' = Some (rows @ new) \<and> fieldnames \<notin> set new \<and>
           count_list (rows @ new) fieldnames = count_list rows fieldnames \<and>
           length rows \<le> length (rows @ new)"
      by (simp add: count_list_append count_list_absent)
    then show "\<exists>new. csv' = Some (rows @ new) \<and> fieldnames \<notin> set new \<and>
           count_list (rows @ new) fieldnames = count_list rows fieldnames \<and>
           length rows \<le> length (rows @ new)" by blast
  qed
  have e: "output_file (new_crawler None prog) = Some [fieldnames]"
    by (simp add: new_crawler_def init_csv_file_def)
  have f: "output_file (new_crawler (Some rows) prog) = Some rows"
    by (simp add: new_crawler_def init_csv_file_def)
  have g: "main w v None prog = (e, c') \<longrightarrow>
      (\<exists>new. output_file c' = Some ([fieldnames] @ new) \<and> fieldnames \<notin> set new \<and>
           length new = length (found_pages c') + length (found_pdfs c'))"
    unfolding main_fresh using main_csv[of w v "[fieldnames]" prog e c'] by blast
  have h: "run_repeatedly v (w # ws) None prog = (csv', prog') \<longrightarrow>
      (\<exists>new. csv' = Some ([fieldnames] @ new) \<and> fieldnames \<notin> set new \<and>
           count_list ([fieldnames] @ new) fieldnames = 1)"
  proof
    assume "run_repeatedly v (w # ws) None prog = (csv', prog')"
    then have "run_repeatedly v (w # ws) (Some [fieldnames]) prog = (csv', prog')"
      by (simp only: run_repeatedly_fresh)
    from run_repeatedly_csv[OF this] obtain new where "csv' = Some ([fieldnames] @ new)"
      "fieldnames \<notin> set new" by blast
    then have "csv' = Some ([fieldnames] @ new) \<and> fieldnames \<notin> set new \<and>
           count_list ([fieldnames] @ new) fieldnames = 1"
      by (simp add: count_list_absent)
    then show "\<exists>new. csv' = Some ([fieldnames] @ new) \<and> fieldnames \<notin> set new \<and>
           count_list ([fieldnames] @ new) fieldnames = 1" by blast
  qed
  show ?thesis by (intro conjI a b c d e f g h)
qed

lemma failing_site_twice:
  "run_repeatedly Baseline [failing_site, failing_site] (Some [fieldnames]) None =
     (Some [fieldnames,
            [''https://www.slusd.us/b'', ''HTML Page'', ''No title'', ''835 E. 14th St.'',
             ''HTML page content'', [], ''2025-01-01 00:00:00''],
            [''https://www.slusd.us/b'', ''HTML Page'', ''No title'', ''835 E. 14th St.'',
             ''HTML page content'', [], ''2025-01-01 00:00:00'']],
      Some \<lparr>p_pages_crawled = 3, p_current_url = ''COMPLETED'', p_found_pages = 1,
            p_found_pdfs = 0, p_last_update = ''2025-01-01 00:00:00''\<rparr>)"
  by code_simp

lemma failing_site_main:
  "main failing_site Baseline (Some [fieldnames]) None =
     (Summary_printed, save_progress failing_site 3 ''COMPLETED'' failing_site_end)"
  by (simp add: main_def crawl_site_def max_pages_of_def new_crawler_header
      base_url_new_crawler failing_site_loop)

lemma failing_site_main_fresh:
  "main failing_site Baseline None None =
     (Summary_printed, save_progress failing_site 3 ''COMPLETED'' failing_site_end)"
  by (simp only: main_fresh failing_site_main)

lemma failing_site_twice_fresh:
  "run_repeatedly Baseline [failing_site, failing_site] None None =
     (Some [fieldnames,
            [''https://www.slusd.us/b'', ''HTML Page'', ''No title'', ''835 E. 14th St.'',
             ''HTML page content'', [], ''2025-01-01 00:00:00''],
            [''https://www.slusd.us/b'', ''HTML Page'', ''No title'', ''835 E. 14th St.'',
             ''HTML page content'', [], ''2025-01-01 00:00:00'']],
      Some \<lparr>p_pages_crawled = 3, p_current_url = ''COMPLETED'', p_found_pages = 1,
            p_found_pdfs = 0, p_last_update = ''2025-01-01 00:00:00''\<rparr>)"
  by (simp only: run_repeatedly_fresh failing_site_twice)

theorem findings_store_init_idempotent_witness:
  "output_file (failing_site_after_root\<lparr>output_file := None\<rparr>) = None \<and>
   output_file (init_csv_file (failing_site_after_root\<lparr>output_file := None\<rparr>)) =
     Some [fieldnames] \<and>
   output_file failing_site_after_root = Some [fieldnames] \<and>
   init_csv_file failing_site_after_root = failing_site_after_root \<and>
   output_file (append_to_csv (hd (found_pages failing_site_end)) failing_site_after_root) =
     Some ([fieldnames] @ [writerow (hd (found_pages failing_site_end))]) \<and>
   main failing_site Baseline (Some [fieldnames]) None =
     (Summary_printed, save_progress failing_site 3 ''COMPLETED'' failing_site_end) \<and>
   (\<exists>new. output_file (save_progress failing_site 3 ''COMPLETED'' failing_site_end) =
            Some ([fieldnames] @ new) \<and> fieldnames \<notin> set new \<and>
          length new =
            length (found_pages (save_progress failing_site 3 ''COMPLETED'' failing_site_end)) +
            length (found_pdfs (save_progress failing_site 3 ''COMPLETED'' failing_site_end))) \<and>
   fst (run_repeatedly Baseline [failing_site, failing_site] (Some [fieldnames]) None) =
     Some [fieldnames,
            [''https://www.slusd.us/b'', ''HTML Page'', ''No title'', ''835 E. 14th St.'',
             ''HTML page content'', [], ''2025-01-01 00:00:00''],
            [''https://www.slusd.us/b'', ''HTML Page'', ''No title'', ''835 E. 14th St.'',
             ''HTML page content'', [], ''2025-01-01 00:00:00'']] \<and>
   (\<exists>new. fst (run_repeatedly Baseline [failing_site, failing_site] (Some [fieldnames]) None) =
            Some ([fieldnames] @ new) \<and> fieldnames \<notin> set new \<and>
          count_list ([fieldnames] @ new) fieldnames = count_list [fieldnames] fieldnames \<and>
          length [fieldnames] \<le> length ([fieldnames] @ new)) \<and>
   output_file (new_crawler None None) = Some [fieldnames] \<and>
   output_file (new_crawler (Some [fieldnames]) None) = Some [fieldnames] \<and>
   main failing_site Baseline None None =
     (Summary_printed, save_progress failing_site 3 ''COMPLETED'' failing_site_end) \<and>
   fst (run_repeatedly Baseline [failing_site, failing_site] None None) =
     Some [fieldnames,
            [''https://www.slusd.us/b'', ''HTML Page'', ''No title'', ''835 E. 14th St.'',
             ''HTML page content'', [], ''2025-01-01 00:00:00''],
            [''https://www.slusd.us/b'', ''HTML Page'', ''No title'', ''835 E. 14th St.'',
             ''HTML page content'', [], ''2025-01-01 00:00:00'']] \<and>
   (\<exists>new. fst (run_repeatedly Baseline [failing_site, failing_site] None None) =
            Some ([fieldnames] @ new) \<and> fieldnames \<notin> set new \<and>
          count_list ([fieldnames] @ new) fieldnames = 1)"
proof -
  let ?c0 = "failing_site_after_root\<lparr>output_file := None\<rparr>"
  let ?end = "save_progress failing_site 3 ''COMPLETED'' failing_site_end"
  let ?P = "snd (run_repeatedly Baseline [failing_site, failing_site] (Some [fieldnames]) None)"
  let ?C = "fst (run_repeatedly Baseline [failing_site, failing_site] (Some [fieldnames]) None)"
  let ?Pn = "snd (run_repeatedly Baseline [failing_site, failing_site] None None)"
  let ?Cn = "fst (run_repeatedly Baseline [failing_site, failing_site] None None)"
  have a: "output_file ?c0 = None" by simp
  have b: "output_file failing_site_after_root = Some [fieldnames]"
    by (simp add: failing_site_after_root_def)
  have r: "run_repeatedly Baseline [failing_site, failing_site] (Some [fieldnames]) None = (?C, ?P)"
    by simp
  have r0: "run_repeatedly Baseline [failing_site, failing_site] None None = (?Cn, ?Pn)"
    by simp
  have c: "?C = Some [fieldnames,
            [''https://www.slusd.us/b'', ''HTML Page'', ''No title'', ''835 E. 14th St.'',
             ''HTML page content'', [], ''2025-01-01 00:00:00''],
            [''https://www.slusd.us/b'', ''HTML Page'', ''No title'', ''835 E. 14th St.'',
             ''HTML page content'', [], ''2025-01-01 00:00:00'']]"
    unfolding failing_site_twice by simp
  have c0: "?Cn = Some [fieldnames,
            [''https://www.slusd.us/b'', ''HTML Page'', ''No title'', ''835 E. 14th St.'',
             ''HTML page content'', [], ''2025-01-01 00:00:00''],
            [''https://www.slusd.us/b'', ''HTML Page'', ''No title'', ''835 E. 14th St.'',
             ''HTML page content'', [], ''2025-01-01 00:00:00'']]"
    unfolding failing_site_twice_fresh by simp
  note i1 = findings_store_init_idempotent[where c = "?c0" and rows = "[fieldnames]"
      and prog = None]
  note i2 = findings_store_init_idempotent[where c = failing_site_after_root
      and rows = "[fieldnames]" and r = "hd (found_pages failing_site_end)"
      and w = failing_site and v = Baseline and prog = None and e = Summary_printed
      and c' = "?end" and ws = "[failing_site, failing_site]" and csv' = "?C" and prog' = "?P"]
  note i3 = findings_store_init_idempotent[where w = failing_site and v = Baseline
      and prog = None and e = Summary_printed and c' = "?end" and ws = "[failing_site]"
      and csv' = "?Cn" and prog' = "?Pn"]
  have w1: "output_file (init_csv_file ?c0) = Some [fieldnames]"
    by (rule mp[OF i1[THEN conjunct1] a])
  have w2: "init_csv_file failing_site_after_root = failing_site_after_root \<and>
   output_file (append_to_csv (hd (found_pages failing_site_end)) failing_site_after_root) =
     Some ([fieldnames] @ [writerow (hd (found_pages failing_site_end))])"
    by (rule mp[OF i2[THEN conjunct2, THEN conjunct1] b])
  have w3: "\<exists>new. output_file ?end = Some ([fieldnames] @ new) \<and> fieldnames \<notin> set new \<and>
          length new = length (found_pages ?end) + length (found_pdfs ?end)"
    by (rule mp[OF i2[THEN conjunct2, THEN conjunct2, THEN conjunct1] failing_site_main])
  have w4: "\<exists>new. ?C = Some ([fieldnames] @ new) \<and> fieldnames \<notin> set new \<and>
          count_list ([fieldnames] @ new) fieldnames = count_list [fieldnames] fieldnames \<and>
          length [fieldnames] \<le> length ([fieldnames] @ new)"
    by (rule mp[OF i2[THEN conjunct2, THEN conjunct2, THEN conjunct2, THEN conjunct1] r])
  have w5: "output_file (new_crawler None None) = Some [fieldnames]"
    by (rule i1[THEN conjunct2, THEN conjunct2, THEN conjunct2, THEN conjunct2, THEN conjunct1])
  have w6: "output_file (new_crawler (Some [fieldnames]) None) = Some [fieldnames]"
    by (rule i1[THEN conjunct2, THEN conjunct2, THEN conjunct2, THEN conjunct2, THEN conjunct2,
          THEN conjunct1])
  have w8: "\<exists>new. ?Cn = Some ([fieldnames] @ new) \<and> fieldnames \<notin> set new \<and>
          count_list ([fieldnames] @ new) fieldnames = 1"
    by (rule mp[OF i3[THEN conjunct2, THEN conjunct2, THEN conjunct2, THEN conjunct2,
          THEN conjunct2, THEN conjunct2, THEN conjunct2] r0])
  show ?thesis
    by (intro conjI a w1 b w2[THEN conjunct1] w2[THEN conjunct2] failing_site_main w3 c w4
        w5 w6 failing_site_main_fresh c0 w8)
qed

section \<open>Linked documents\<close>

lemma check_pdf_content_baseline_Failed:
  assumes "session_get_pdf w (length (trace c)) url = Failed"
  shows "check_pdf_content_baseline w url c =
           (Ok (False, None), c\<lparr>trace := trace c @ [GetPdf url]\<rparr>)"
  using assms by (simp add: check_pdf_content_baseline_def Let_def)

lemma check_pdf_content_fast_probe_Failed:
  assumes "session_head w (length (trace c)) url = Failed"
  shows "check_pdf_content_fast w url c =
           (Ok (False, None), c\<lparr>trace := trace c @ [Head url]\<rparr>)"
  using assms by (simp add: check_pdf_content_fast_def Let_def)

lemma check_pdf_content_fast_oversize:
  assumes "session_head w (length (trace c)) url = Ok (Some n)" "50 * (1024 * 1024) < n"
  shows "check_pdf_content_fast w url c =
           (Ok (False, None), c\<lparr>trace := trace c @ [Head url]\<rparr>)"
  using assms by (simp add: check_pdf_content_fast_def Let_def)

lemma check_pdf_content_fast_Failed:
  assumes "session_head w (length (trace c)) url = Ok len"
    and "\<not> (case len of None \<Rightarrow> False | Some n \<Rightarrow> n > 50 * (1024 * 1024))"
    and "session_get_pdf w (Suc (length (trace c))) url = Failed"
  shows "check_pdf_content_fast w url c =
           (Ok (False, None), c\<lparr>trace := trace c @ [Head url, GetPdf url]\<rparr>)"
  using assms by (simp add: check_pdf_content_fast_def Let_def)

lemma scan_pages_iff:
  "fst (scan_pages pages) \<longleftrightarrow>
     (\<exists>t. Some t \<in> set pages \<and> fst (check_address_in_text_fast quick_check juniper_patterns t))"
proof (induction pages)
  case Nil
  show ?case by simp
next
  case (Cons page pages)
  show ?case
  proof (cases page)
    case None
    with Cons.IH show ?thesis by auto
  next
    case (Some t)
    obtain b m where r: "check_address_in_text_fast quick_check juniper_patterns t = (b, m)"
      by (cases "check_address_in_text_fast quick_check juniper_patterns t")
    show ?thesis
    proof (cases "occurs_in quick_check t")
      case True
      with Some r Cons.IH show ?thesis by (cases b) auto
    next
      case False
      from check_fast_without_literal[OF False, of juniper_patterns] r
      have "b = False" by simp
      with Some r False Cons.IH show ?thesis by auto
    qed
  qed
qed

text \<open>
  A run on a root page whose only link is a document, when the document check there
  returns \<open>(fnd, m)\<close> and adds the events \<open>ev\<close>.
\<close>

lemma root_with_one_document:
  assumes max: "0 < max_pages"
    and fresh: "root \<notin> visited_urls c" "pdf \<notin> visited_urls c" "found_pdfs c = []"
    and page: "session_get_page w (length (trace c)) root = Ok (html, ct)" "html \<noteq> []"
      "\<not> (ct \<noteq> [] \<and> occurs_in ''pdf'' (lower ct))"
    and parsed: "safe_parse_html w html = Some s"
    and links: "extract_links w html root = [pdf]"
    and guard: "is_valid_url w c pdf" "passes_skip_filter v pdf" "pdf \<noteq> root"
      "suffix ''.pdf'' (lower pdf)"
    and doc: "\<And>d. length (trace d) = Suc (length (trace c)) \<Longrightarrow>
        check_pdf_content w v pdf d = (Ok (fnd, m), d\<lparr>trace := trace d @ ev\<rparr>)"
    and awake: "\<forall>t. \<not> sleep_interrupted w t"
  shows "\<exists>c'. crawl_loop w v max_pages [root] 0 c = (Next, [], 1, c') \<and>
           trace c' = trace c @ Get root # ev @ [Sleep (delay v)] \<and>
           visited_urls c' = insert root (visited_urls c) \<and>
           (if fnd
            then \<exists>f. found_pdfs c' = [f] \<and> f_url f = pdf \<and> f_type f = ''PDF'' \<and>
                   f_parent_page f = root \<and> f_address_found f = m
            else found_pdfs c' = [])"
proof -
  let ?c1 = "c\<lparr>visited_urls := insert root (visited_urls c)\<rparr>"
  let ?c3 = "?c1\<lparr>trace := trace ?c1 @ [Get root]\<rparr>"
  obtain found m0 where chk: "check_address v (soup_text s) = (found, m0)"
    by (cases "check_address v (soup_text s)")
  let ?c4 = "if found
          then record_finding w root ''HTML Page'' m0
                 (case soup_title s of None \<Rightarrow> ''No title'' | Some t \<Rightarrow> t)
                 ''HTML page content'' [] ?c3
          else ?c3"
  have g: "get_page_content w root ?c1 = (Ok (Some (html, ct)), ?c3)"
    using page(1) by (simp add: get_page_content_def Let_def)
  have cp: "crawl_page w v root [] ?c1 = process_links w v root [pdf] [] ?c4"
    using g page(2) parsed chk links
    by (simp add: crawl_page_def page(3) del: process_links.simps)
  have c4: "visited_urls ?c4 = insert root (visited_urls c)" "domain ?c4 = domain c"
    "found_pdfs ?c4 = []" "trace ?c4 = trace c @ [Get root]"
    using fresh(3) by (simp_all add: record_finding_def append_to_csv_def Let_def)
  have len: "length (trace ?c4) = Suc (length (trace c))"
    unfolding c4(4) by simp
  let ?c5 = "?c4\<lparr>trace := trace ?c4 @ ev\<rparr>"
  have cc: "check_pdf_content w v pdf ?c4 = (Ok (fnd, m), ?c5)"
    by (rule doc[OF len])
  let ?c6 = "if fnd then record_finding w pdf ''PDF'' m [] ''PDF document (linked)'' root ?c5
             else ?c5"
  have v4: "is_valid_url w ?c4 pdf"
    unfolding is_valid_url_cong[OF c4(2)] by (rule guard(1))
  have nv: "pdf \<notin> visited_urls ?c4" using c4(1) fresh(2) guard(3) by simp
  have pl: "process_links w v root [pdf] [] ?c4 = (Next, [], ?c6)"
  proof -
    have "process_links w v root [pdf] [] ?c4 =
       (case check_pdf_content w v pdf ?c4 of
        (Ok (found, m), c1) \<Rightarrow>
          process_links w v root [] []
            (if found
             then record_finding w pdf ''PDF'' m [] ''PDF document (linked)'' root c1
             else c1)
      | (_, c1) \<Rightarrow> (Raised, [], c1))"
      by (rule process_links_pdf_step[OF v4 guard(2) nv _ guard(4)]) simp
    also have "\<dots> = (Next, [], ?c6)" unfolding cc by simp
    finally show ?thesis .
  qed
  let ?c7 = "?c6\<lparr>trace := trace ?c6 @ [Sleep (delay v)]\<rparr>"
  have body: "crawl_body w v root [] (Suc 0) c = (Next, [], ?c7)"
    using awake by (simp add: crawl_body_def Let_def cp pl del: process_links.simps)
  have stop: "crawl_loop w v max_pages [] (Suc 0) ?c7 = (Next, [], Suc 0, ?c7)"
    by (subst crawl_loop.simps) simp
  have loop: "crawl_loop w v max_pages [root] 0 c = (Next, [], 1, ?c7)"
    using max fresh(1) body stop by (subst crawl_loop.simps) simp
  have c5: "found_pdfs ?c5 = []" "visited_urls ?c5 = insert root (visited_urls c)"
    "trace ?c5 = trace c @ Get root # ev"
    using c4 by simp_all
  have t7: "trace ?c7 = trace c @ Get root # ev @ [Sleep (delay v)]"
    using c5(3) by (simp add: record_finding_frame)
  have v7: "visited_urls ?c7 = insert root (visited_urls c)"
    using c5(2) by (simp add: record_finding_frame)
  have f7: "if fnd
            then \<exists>f. found_pdfs ?c7 = [f] \<and> f_url f = pdf \<and> f_type f = ''PDF'' \<and>
                   f_parent_page f = root \<and> f_address_found f = m
            else found_pdfs ?c7 = []"
    using c5(1) by (simp add: record_finding_def append_to_csv_def Let_def)
  from loop t7 v7 f7 show ?thesis by blast
qed

text \<open>
  Claim C6 (linked documents are leaves), as the code has it.  A discovered link that
  passes the condition of the link loop (in scope, in the fast crawler not caught by the
  skip filter, not visited, not queued) and ends in \<open>.pdf\<close> is handed to
  \<open>check_pdf_content\<close> at once, and a match is recorded as a \<open>PDF\<close> finding with the
  current page as parent page; the link loop never appends a URL ending in \<open>.pdf\<close> to the
  queue, so in a run no such URL other than the base URL is ever queued or processed as a
  page.

  What \<open>check_pdf_content\<close> does with the document: the baseline crawler fetches it and
  matches the text of all its pages, and reports no match when the fetch fails.  The fast
  crawler first sends a \<open>HEAD\<close> request; when that request fails, or announces more than
  50 MB, it reports no match without fetching the document; otherwise it fetches the
  document and reports a match exactly when some page, taken on its own, matches, and no
  match when the fetch fails.

  For a root page whose only link is such a document, with no interrupt, the run processes
  the root page only.  In the baseline crawler, when the document can be fetched, the run
  ends with exactly one \<open>PDF\<close> finding, for the document and with the root URL as parent
  page, if the text of the document matches, and with none otherwise.  In the fast
  crawler, when the size probe lets the document through and it can be fetched, the run
  ends with exactly one such finding if some page matches on its own, and with none
  otherwise; when the size probe fails or announces more than 50 MB, the document is not
  fetched and the run ends without \<open>PDF\<close> finding.
\<close>

theorem linked_documents_are_leaves:
  "(is_valid_url w c link \<and> passes_skip_filter v link \<and> link \<notin> visited_urls c \<and>
    link \<notin> set q \<and> suffix ''.pdf'' (lower link) \<longrightarrow>
      process_links w v cur (link # links) q c =
        (case check_pdf_content w v link c of
           (Ok (found, m), c1) \<Rightarrow>
             process_links w v cur links q
               (if found
                then record_finding w link ''PDF'' m [] ''PDF document (linked)'' cur c1
                else c1)
         | (_, c1) \<Rightarrow> (Raised, q, c1))) \<and>
   (process_links w v cur links q c = (fl, q', c') \<longrightarrow>
      (\<exists>added. q' = q @ added \<and> (\<forall>u \<in> set added. \<not> suffix ''.pdf'' (lower u)))) \<and>
   (crawl_loop w v max_pages [base_url c] 0 c = (fl, q', n', c') \<longrightarrow>
      (\<forall>u \<in> set q'. u = base_url c \<or> \<not> suffix ''.pdf'' (lower u)) \<and>
      (\<exists>ev. trace c' = trace c @ ev \<and>
            (\<forall>u \<in> set (page_gets ev). u = base_url c \<or> \<not> suffix ''.pdf'' (lower u)))) \<and>
   (session_get_pdf w (length (trace c)) link = Ok pages \<longrightarrow>
      check_pdf_content w Baseline link c =
        (Ok (check_address Baseline (pdf_text pages [])),
         c\<lparr>trace := trace c @ [GetPdf link]\<rparr>)) \<and>
   (session_get_pdf w (length (trace c)) link = Failed \<longrightarrow>
      check_pdf_content w Baseline link c =
        (Ok (False, None), c\<lparr>trace := trace c @ [GetPdf link]\<rparr>)) \<and>
   (session_head w (length (trace c)) link = Failed \<or>
    (\<exists>n. session_head w (length (trace c)) link = Ok (Some n) \<and> 50 * (1024 * 1024) < n) \<longrightarrow>
      check_pdf_content w Fast link c =
        (Ok (False, None), c\<lparr>trace := trace c @ [Head link]\<rparr>)) \<and>
   (session_head w (length (trace c)) link = Ok sz \<and>
    \<not> (case sz of None \<Rightarrow> False | Some n \<Rightarrow> 50 * (1024 * 1024) < n) \<longrightarrow>
      (session_get_pdf w (Suc (length (trace c))) link = Ok pages \<longrightarrow>
         check_pdf_content w Fast link c =
           (Ok (scan_pages pages), c\<lparr>trace := trace c @ [Head link, GetPdf link]\<rparr>)) \<and>
      (session_get_pdf w (Suc (length (trace c))) link = Failed \<longrightarrow>
         check_pdf_content w Fast link c =
           (Ok (False, None), c\<lparr>trace := trace c @ [Head link, GetPdf link]\<rparr>))) \<and>
   (fst (scan_pages pages) \<longleftrightarrow>
      (\<exists>t. Some t \<in> set pages \<and> fst (check_address Fast t))) \<and>
   (0 < max_pages \<and> base_url c \<notin> visited_urls c \<and> pdf \<notin> visited_urls c \<and>
    found_pdfs c = [] \<and>
    session_get_page w (length (trace c)) (base_url c) = Ok (html, ct) \<and> html \<noteq> [] \<and>
    \<not> (ct \<noteq> [] \<and> occurs_in ''pdf'' (lower ct)) \<and>
    safe_parse_html w html = Some s \<and> extract_links w html (base_url c) = [pdf] \<and>
    is_valid_url w c pdf \<and> passes_skip_filter v pdf \<and> pdf \<noteq> base_url c \<and>
    suffix ''.pdf'' (lower pdf) \<and> (\<forall>t. \<not> sleep_interrupted w t) \<longrightarrow>
      (v = Baseline \<and> session_get_pdf w (Suc (length (trace c))) pdf = Ok pages \<longrightarrow>
         (\<exists>c'. crawl_loop w v max_pages [base_url c] 0 c = (Next, [], 1, c') \<and>
              trace c' = trace c @ [Get (base_url c), GetPdf pdf, Sleep 500] \<and>
              visited_urls c' = insert (base_url c) (visited_urls c) \<and>
              (if fst (check_address Baseline (pdf_text pages []))
               then \<exists>f. found_pdfs c' = [f] \<and> f_url f = pdf \<and> f_type f = ''PDF'' \<and>
                      f_parent_page f = base_url c \<and>
                      f_address_found f = snd (check_address Baseline (pdf_text pages []))
               else found_pdfs c' = []))) \<and>
      (v = Fast \<and> session_head w (Suc (length (trace c))) pdf = Ok sz \<and>
       \<not> (case sz of None \<Rightarrow> False | Some n \<Rightarrow> 50 * (1024 * 1024) < n) \<and>
       session_get_pdf w (Suc (Suc (length (trace c)))) pdf = Ok pages \<longrightarrow>
         (\<exists>c'. crawl_loop w v max_pages [base_url c] 0 c = (Next, [], 1, c') \<and>
              trace c' = trace c @ [Get (base_url c), Head pdf, GetPdf pdf, Sleep 200] \<and>
              visited_urls c' = insert (base_url c) (visited_urls c) \<and>
              (if \<exists>t. Some t \<in> set pages \<and> fst (check_address Fast t)
               then \<exists>f. found_pdfs c' = [f] \<and> f_url f = pdf \<and> f_type f = ''PDF'' \<and>
                      f_parent_page f = base_url c \<and>
                      f_address_found f = snd (scan_pages pages)
               else found_pdfs c' = []))) \<and>
      (v = Fast \<and>
       (session_head w (Suc (length (trace c))) pdf = Failed \<or>
        (\<exists>n. session_head w (Suc (length (trace c))) pdf = Ok (Some n) \<and>
             50 * (1024 * 1024) < n)) \<longrightarrow>
         (\<exists>c'. crawl_loop w v max_pages [base_url c] 0 c = (Next, [], 1, c') \<and>
              trace c' = trace c @ [Get (base_url c), Head pdf, Sleep 200] \<and>
              visited_urls c' = insert (base_url c) (visited_urls c) \<and>
              found_pdfs c' = [])))"
proof -
  have a: "is_valid_url w c link \<and> passes_skip_filter v link \<and> link \<notin> visited_urls c \<and>
    link \<notin> set q \<and> suffix ''.pdf'' (lower link) \<longrightarrow>
      process_links w v cur (link # links) q c =
        (case check_pdf_content w v link c of
           (Ok (found, m), c1) \<Rightarrow>
             process_links w v cur links q
               (if found
                then record_finding w link ''PDF'' m [] ''PDF document (linked)'' cur c1
                else c1)
         | (_, c1) \<Rightarrow> (Raised, q, c1))"
    using process_links_pdf_step[of w c link v q cur links] by blast
  have b: "process_links w v cur links q c = (fl, q', c') \<longrightarrow>
      (\<exists>added. q' = q @ added \<and> (\<forall>u \<in> set added. \<not> suffix ''.pdf'' (lower u)))"
    using process_links_queue[of w v cur links q c fl q' c'] by blast
  have c: "crawl_loop w v max_pages [base_url c] 0 c = (fl, q', n', c') \<longrightarrow>
      (\<forall>u \<in> set q'. u = base_url c \<or> \<not> suffix ''.pdf'' (lower u)) \<and>
      (\<exists>ev. trace c' = trace c @ ev \<and>
            (\<forall>u \<in> set (page_gets ev). u = base_url c \<or> \<not> suffix ''.pdf'' (lower u)))"
    using crawl_loop_no_pdf_pages[of w v max_pages "base_url c" c fl q' n' c'] by blast
  have e1: "session_get_pdf w (length (trace c)) link = Ok pages \<longrightarrow>
      check_pdf_content w Baseline link c =
        (Ok (check_address Baseline (pdf_text pages [])),
         c\<lparr>trace := trace c @ [GetPdf link]\<rparr>)"
    by (simp add: check_pdf_content_def check_address_def check_pdf_content_baseline_Ok)
  have e2: "session_get_pdf w (length (trace c)) link = Failed \<longrightarrow>
      check_pdf_content w Baseline link c =
        (Ok (False, None), c\<lparr>trace := trace c @ [GetPdf link]\<rparr>)"
    by (simp add: check_pdf_content_def check_pdf_content_baseline_Failed)
  have e3: "session_head w (length (trace c)) link = Failed \<or>
    (\<exists>n. session_head w (length (trace c)) link = Ok (Some n) \<and> 50 * (1024 * 1024) < n) \<longrightarrow>
      check_pdf_content w Fast link c =
        (Ok (False, None), c\<lparr>trace := trace c @ [Head link]\<rparr>)"
    using check_pdf_content_fast_probe_Failed[of w c link]
      check_pdf_content_fast_oversize[of w c link]
    by (auto simp: check_pdf_content_def)
  have e4: "session_head w (length (trace c)) link = Ok sz \<and>
    \<not> (case sz of None \<Rightarrow> False | Some n \<Rightarrow> 50 * (1024 * 1024) < n) \<longrightarrow>
      (session_get_pdf w (Suc (length (trace c))) link = Ok pages \<longrightarrow>
         check_pdf_content w Fast link c =
           (Ok (scan_pages pages), c\<lparr>trace := trace c @ [Head link, GetPdf link]\<rparr>)) \<and>
      (session_get_pdf w (Suc (length (trace c))) link = Failed \<longrightarrow>
         check_pdf_content w Fast link c =
           (Ok (False, None), c\<lparr>trace := trace c @ [Head link, GetPdf link]\<rparr>))"
    using check_pdf_content_fast_Ok[of w c link sz pages]
      check_pdf_content_fast_Failed[of w c link sz]
    by (simp add: check_pdf_content_def)
  have e5: "fst (scan_pages pages) \<longleftrightarrow>
      (\<exists>t. Some t \<in> set pages \<and> fst (check_address Fast t))"
    by (simp add: scan_pages_iff check_address_def)
  have d: "0 < max_pages \<and> base_url c \<notin> visited_urls c \<and> pdf \<notin> visited_urls c \<and>
    found_pdfs c = [] \<and>
    session_get_page w (length (trace c)) (base_url c) = Ok (html, ct) \<and> html \<noteq> [] \<and>
    \<not> (ct \<noteq> [] \<and> occurs_in ''pdf'' (lower ct)) \<and>
    safe_parse_html w html = Some s \<and> extract_links w html (base_url c) = [pdf] \<and>
    is_valid_url w c pdf \<and> passes_skip_filter v pdf \<and> pdf \<noteq> base_url c \<and>
    suffix ''.pdf'' (lower pdf) \<and> (\<forall>t. \<not> sleep_interrupted w t) \<longrightarrow>
      (v = Baseline \<and> session_get_pdf w (Suc (length (trace c))) pdf = Ok pages \<longrightarrow>
         (\<exists>c'. crawl_loop w v max_pages [base_url c] 0 c = (Next, [], 1, c') \<and>
              trace c' = trace c @ [Get (base_url c), GetPdf pdf, Sleep 500] \<and>
              visited_urls c' = insert (base_url c) (visited_urls c) \<and>
              (if fst (check_address Baseline (pdf_text pages []))
               then \<exists>f. found_pdfs c' = [f] \<and> f_url f = pdf \<and> f_type f = ''PDF'' \<and>
                      f_parent_page f = base_url c \<and>
                      f_address_found f = snd (check_address Baseline (pdf_text pages []))
               else found_pdfs c' = []))) \<and>
      (v = Fast \<and> session_head w (Suc (length (trace c))) pdf = Ok sz \<and>
       \<not> (case sz of None \<Rightarrow> False | Some n \<Rightarrow> 50 * (1024 * 1024) < n) \<and>
       session_get_pdf w (Suc (Suc (length (trace c)))) pdf = Ok pages \<longrightarrow>
         (\<exists>c'. crawl_loop w v max_pages [base_url c] 0 c = (Next, [], 1, c') \<and>
              trace c' = trace c @ [Get (base_url c), Head pdf, GetPdf pdf, Sleep 200] \<and>
              visited_urls c' = insert (base_url c) (visited_urls c) \<and>
              (if \<exists>t. Some t \<in> set pages \<and> fst (check_address Fast t)
               then \<exists>f. found_pdfs c' = [f] \<and> f_url f = pdf \<and> f_type f = ''PDF'' \<and>
                      f_parent_page f = base_url c \<and>
                      f_address_found f = snd (scan_pages pages)
               else found_pdfs c' = []))) \<and>
      (v = Fast \<and>
       (session_head w (Suc (length (trace c))) pdf = Failed \<or>
        (\<exists>n. session_head w (Suc (length (trace c))) pdf = Ok (Some n) \<and>
             50 * (1024 * 1024) < n)) \<longrightarrow>
         (\<exists>c'. crawl_loop w v max_pages [base_url c] 0 c = (Next, [], 1, c') \<and>
              trace c' = trace c @ [Get (base_url c), Head pdf, Sleep 200] \<and>
              visited_urls c' = insert (base_url c) (visited_urls c) \<and>
              found_pdfs c' = []))"
  proof (rule impI)
    assume h: "0 < max_pages \<and> base_url c \<notin> visited_urls c \<and> pdf \<notin> visited_urls c \<and>
      found_pdfs c = [] \<and>
      session_get_page w (length (trace c)) (base_url c) = Ok (html, ct) \<and> html \<noteq> [] \<and>
      \<not> (ct \<noteq> [] \<and> occurs_in ''pdf'' (lower ct)) \<and>
      safe_parse_html w html = Some s \<and> extract_links w html (base_url c) = [pdf] \<and>
      is_valid_url w c pdf \<and> passes_skip_filter v pdf \<and> pdf \<noteq> base_url c \<and>
      suffix ''.pdf'' (lower pdf) \<and> (\<forall>t. \<not> sleep_interrupted w t)"
    note run = root_with_one_document[where w = w and v = v and c = c and pdf = pdf
        and root = "base_url c" and max_pages = max_pages and html = html and ct = ct
        and s = s]
    have run': "\<exists>c'. crawl_loop w v max_pages [base_url c] 0 c = (Next, [], 1, c') \<and>
           trace c' = trace c @ Get (base_url c) # ev @ [Sleep (delay v)] \<and>
           visited_urls c' = insert (base_url c) (visited_urls c) \<and>
           (if fnd
            then \<exists>f. found_pdfs c' = [f] \<and> f_url f = pdf \<and> f_type f = ''PDF'' \<and>
                   f_parent_page f = base_url c \<and> f_address_found f = m
            else found_pdfs c' = [])"
      if "\<And>d. length (trace d) = Suc (length (trace c)) \<Longrightarrow>
        check_pdf_content w v pdf d = (Ok (fnd, m), d\<lparr>trace := trace d @ ev\<rparr>)"
      for fnd m ev
      using h that by (intro run) blast+
    have d1: "v = Baseline \<and> session_get_pdf w (Suc (length (trace c))) pdf = Ok pages \<longrightarrow>
         (\<exists>c'. crawl_loop w v max_pages [base_url c] 0 c = (Next, [], 1, c') \<and>
              trace c' = trace c @ [Get (base_url c), GetPdf pdf, Sleep 500] \<and>
              visited_urls c' = insert (base_url c) (visited_urls c) \<and>
              (if fst (check_address Baseline (pdf_text pages []))
               then \<exists>f. found_pdfs c' = [f] \<and> f_url f = pdf \<and> f_type f = ''PDF'' \<and>
                      f_parent_page f = base_url c \<and>
                      f_address_found f = snd (check_address Baseline (pdf_text pages []))
               else found_pdfs c' = []))"
    proof (rule impI)
      assume k: "v = Baseline \<and> session_get_pdf w (Suc (length (trace c))) pdf = Ok pages"
      have "check_pdf_content w v pdf d =
          (Ok (fst (check_address Baseline (pdf_text pages [])),
               snd (check_address Baseline (pdf_text pages []))),
           d\<lparr>trace := trace d @ [GetPdf pdf]\<rparr>)"
        if "length (trace d) = Suc (length (trace c))" for d
        using k that
        by (simp add: check_pdf_content_def check_address_def check_pdf_content_baseline_Ok)
      from run'[OF this] k show "\<exists>c'. crawl_loop w v max_pages [base_url c] 0 c = (Next, [], 1, c') \<and>
              trace c' = trace c @ [Get (base_url c), GetPdf pdf, Sleep 500] \<and>
              visited_urls c' = insert (base_url c) (visited_urls c) \<and>
              (if fst (check_address Baseline (pdf_text pages []))
               then \<exists>f. found_pdfs c' = [f] \<and> f_url f = pdf \<and> f_type f = ''PDF'' \<and>
                      f_parent_page f = base_url c \<and>
                      f_address_found f = snd (check_address Baseline (pdf_text pages []))
               else found_pdfs c' = [])"
        by (simp add: delay_def)
    qed
    have d2: "v = Fast \<and> session_head w (Suc (length (trace c))) pdf = Ok sz \<and>
       \<not> (case sz of None \<Rightarrow> False | Some n \<Rightarrow> 50 * (1024 * 1024) < n) \<and>
       session_get_pdf w (Suc (Suc (length (trace c)))) pdf = Ok pages \<longrightarrow>
         (\<exists>c'. crawl_loop w v max_pages [base_url c] 0 c = (Next, [], 1, c') \<and>
              trace c' = trace c @ [Get (base_url c), Head pdf, GetPdf pdf, Sleep 200] \<and>
              visited_urls c' = insert (base_url c) (visited_urls c) \<and>
              (if \<exists>t. Some t \<in> set pages \<and> fst (check_address Fast t)
               then \<exists>f. found_pdfs c' = [f] \<and> f_url f = pdf \<and> f_type f = ''PDF'' \<and>
                      f_parent_page f = base_url c \<and>
                      f_address_found f = snd (scan_pages pages)
               else found_pdfs c' = []))"
    proof (rule impI)
      assume k: "v = Fast \<and> session_head w (Suc (length (trace c))) pdf = Ok sz \<and>
       \<not> (case sz of None \<Rightarrow> False | Some n \<Rightarrow> 50 * (1024 * 1024) < n) \<and>
       session_get_pdf w (Suc (Suc (length (trace c)))) pdf = Ok pages"
      have "check_pdf_content w v pdf d =
          (Ok (fst (scan_pages pages), snd (scan_pages pages)),
           d\<lparr>trace := trace d @ [Head pdf, GetPdf pdf]\<rparr>)"
        if "length (trace d) = Suc (length (trace c))" for d
        using k that check_pdf_content_fast_Ok[of w d pdf sz pages]
        by (simp add: check_pdf_content_def)
      from run'[OF this] k show "\<exists>c'. crawl_loop w v max_pages [base_url c] 0 c = (Next, [], 1, c') \<and>
              trace c' = trace c @ [Get (base_url c), Head pdf, GetPdf pdf, Sleep 200] \<and>
              visited_urls c' = insert (base_url c) (visited_urls c) \<and>
              (if \<exists>t. Some t \<in> set pages \<and> fst (check_address Fast t)
               then \<exists>f. found_pdfs c' = [f] \<and> f_url f = pdf \<and> f_type f = ''PDF'' \<and>
                      f_parent_page f = base_url c \<and>
                      f_address_found f = snd (scan_pages pages)
               else found_pdfs c' = [])"
        unfolding e5[symmetric] by (simp add: delay_def)
    qed
    have d3: "v = Fast \<and>
       (session_head w (Suc (length (trace c))) pdf = Failed \<or>
        (\<exists>n. session_head w (Suc (length (trace c))) pdf = Ok (Some n) \<and>
             50 * (1024 * 1024) < n)) \<longrightarrow>
         (\<exists>c'. crawl_loop w v max_pages [base_url c] 0 c = (Next, [], 1, c') \<and>
              trace c' = trace c @ [Get (base_url c), Head pdf, Sleep 200] \<and>
              visited_urls c' = insert (base_url c) (visited_urls c) \<and>
              found_pdfs c' = [])"
    proof (rule impI)
      assume k: "v = Fast \<and>
       (session_head w (Suc (length (trace c))) pdf = Failed \<or>
        (\<exists>n. session_head w (Suc (length (trace c))) pdf = Ok (Some n) \<and>
             50 * (1024 * 1024) < n))"
      have "check_pdf_content w v pdf d =
          (Ok (False, None), d\<lparr>trace := trace d @ [Head pdf]\<rparr>)"
        if "length (trace d) = Suc (length (trace c))" for d
        using k that check_pdf_content_fast_probe_Failed[of w d pdf]
          check_pdf_content_fast_oversize[of w d pdf]
        by (auto simp: check_pdf_content_def)
      from run'[OF this] k show "\<exists>c'. crawl_loop w v max_pages [base_url c] 0 c = (Next, [], 1, c') \<and>
              trace c' = trace c @ [Get (base_url c), Head pdf, Sleep 200] \<and>
              visited_urls c' = insert (base_url c) (visited_urls c) \<and>
              found_pdfs c' = []"
        by (simp add: delay_def)
    qed
    from d1 d2 d3 show "(v = Baseline \<and> session_get_pdf w (Suc (length (trace c))) pdf = Ok pages \<longrightarrow>
         (\<exists>c'. crawl_loop w v max_pages [base_url c] 0 c = (Next, [], 1, c') \<and>
              trace c' = trace c @ [Get (base_url c), GetPdf pdf, Sleep 500] \<and>
              visited_urls c' = insert (base_url c) (visited_urls c) \<and>
              (if fst (check_address Baseline (pdf_text pages []))
               then \<exists>f. found_pdfs c' = [f] \<and> f_url f = pdf \<and> f_type f = ''PDF'' \<and>
                      f_parent_page f = base_url c \<and>
                      f_address_found f = snd (check_address Baseline (pdf_text pages []))
               else found_pdfs c' = []))) \<and>
      (v = Fast \<and> session_head w (Suc (length (trace c))) pdf = Ok sz \<and>
       \<not> (case sz of None \<Rightarrow> False | Some n \<Rightarrow> 50 * (1024 * 1024) < n) \<and>
       session_get_pdf w (Suc (Suc (length (trace c)))) pdf = Ok pages \<longrightarrow>
         (\<exists>c'. crawl_loop w v max_pages [base_url c] 0 c = (Next, [], 1, c') \<and>
              trace c' = trace c @ [Get (base_url c), Head pdf, GetPdf pdf, Sleep 200] \<and>
              visited_urls c' = insert (base_url c) (visited_urls c) \<and>
              (if \<exists>t. Some t \<in> set pages \<and> fst (check_address Fast t)
               then \<exists>f. found_pdfs c' = [f] \<and> f_url f = pdf \<and> f_type f = ''PDF'' \<and>
                      f_parent_page f = base_url c \<and>
                      f_address_found f = snd (scan_pages pages)
               else found_pdfs c' = []))) \<and>
      (v = Fast \<and>
       (session_head w (Suc (length (trace c))) pdf = Failed \<or>
        (\<exists>n. session_head w (Suc (length (trace c))) pdf = Ok (Some n) \<and>
             50 * (1024 * 1024) < n)) \<longrightarrow>
         (\<exists>c'. crawl_loop w v max_pages [base_url c] 0 c = (Next, [], 1, c') \<and>
              trace c' = trace c @ [Get (base_url c), Head pdf, Sleep 200] \<and>
              visited_urls c' = insert (base_url c) (visited_urls c) \<and>
              found_pdfs c' = []))"
      by (intro conjI)
  qed
  show ?thesis
    by (intro conjI a b c e1 e2 e3 e4 e5 d)
qed

lemma leaf_site_loop:
  "crawl_loop leaf_site Baseline 5000 [''https://www.slusd.us''] 0 (new_crawler None None) =
     (Next, [], 1, leaf_site_end)"
  by code_simp

lemma leaf_site_links:
  "extract_links leaf_site ''root'' ''https://www.slusd.us'' = [''https://www.slusd.us/doc.pdf'']"
  by code_simp

lemma leaf_site_valid:
  "is_valid_url leaf_site (new_crawler None None) ''https://www.slusd.us/doc.pdf''"
  by code_simp

lemma doc_pdf_suffix: "suffix ''.pdf'' (lower ''https://www.slusd.us/doc.pdf'')"
  by code_simp

lemma doc_pages_baseline:
  "check_address Baseline (pdf_text doc_pages []) = (True, Some ''835 E. 14th St.'')"
  by code_simp

lemma root_content_type: "\<not> occurs_in ''pdf'' (lower ''text/html; charset=utf-8'')"
  by code_simp

lemma leaf_site_parse:
  "safe_parse_html leaf_site ''root'' =
     Some \<lparr>soup_text = ''Welcome'', soup_title = Some ''Home'',
           soup_hrefs = [''https://www.slusd.us/doc.pdf'']\<rparr>"
  by (simp add: safe_parse_html_def leaf_site_def)

lemma doc_pdf_not_skipped: "passes_skip_filter Fast ''https://www.slusd.us/doc.pdf''"
  by code_simp

lemma doc_pages_scan: "scan_pages doc_pages = (True, Some ''14735 Juniper St.'')"
  by code_simp

lemma oversize_site_links:
  "extract_links oversize_site ''root'' ''https://www.slusd.us'' =
     [''https://www.slusd.us/doc.pdf'']"
  by code_simp

lemma oversize_site_valid:
  "is_valid_url oversize_site (new_crawler None None) ''https://www.slusd.us/doc.pdf''"
  by code_simp

lemma oversize_site_parse:
  "safe_parse_html oversize_site ''root'' =
     Some \<lparr>soup_text = ''Welcome'', soup_title = Some ''Home'',
           soup_hrefs = [''https://www.slusd.us/doc.pdf'']\<rparr>"
  by (simp add: safe_parse_html_def oversize_site_def leaf_site_def)

text \<open>
  The leaf site, whose root page links to one document of two pages, the second of which
  names both addresses, in both crawlers; the same site with a document announced as
  60 MB; and documents whose size probe or fetch fails.
\<close>

theorem linked_documents_are_leaves_witness:
  "is_valid_url leaf_site (new_crawler None None) ''https://www.slusd.us/doc.pdf'' \<and>
   passes_skip_filter Baseline ''https://www.slusd.us/doc.pdf'' \<and>
   passes_skip_filter Fast ''https://www.slusd.us/doc.pdf'' \<and>
   suffix ''.pdf'' (lower ''https://www.slusd.us/doc.pdf'') \<and>
   process_links leaf_site Baseline ''https://www.slusd.us'' [''https://www.slusd.us/doc.pdf'']
     [] (new_crawler None None) =
     (case check_pdf_content leaf_site Baseline ''https://www.slusd.us/doc.pdf''
             (new_crawler None None) of
        (Ok (found, m), c1) \<Rightarrow>
          process_links leaf_site Baseline ''https://www.slusd.us'' [] []
            (if found
             then record_finding leaf_site ''https://www.slusd.us/doc.pdf'' ''PDF'' m []
                    ''PDF document (linked)'' ''https://www.slusd.us'' c1
             else c1)
      | (_, c1) \<Rightarrow> (Raised, [], c1)) \<and>
   (\<exists>fl c'. process_links leaf_site Baseline ''https://www.slusd.us''
       [''https://www.slusd.us/doc.pdf''] [] (new_crawler None None) = (fl, [], c')) \<and>
   crawl_loop leaf_site Baseline 5000 [base_url (new_crawler None None)] 0
     (new_crawler None None) = (Next, [], 1, leaf_site_end) \<and>
   (\<exists>ev. trace leaf_site_end = trace (new_crawler None None) @ ev \<and>
         (\<forall>u \<in> set (page_gets ev).
            u = base_url (new_crawler None None) \<or> \<not> suffix ''.pdf'' (lower u))) \<and>
   check_pdf_content leaf_site Baseline ''https://www.slusd.us/doc.pdf'' (new_crawler None None) =
     (Ok (True, Some ''835 E. 14th St.''),
      (new_crawler None None)\<lparr>trace := [GetPdf ''https://www.slusd.us/doc.pdf'']\<rparr>) \<and>
   check_pdf_content failing_site Baseline ''https://www.slusd.us/doc.pdf''
       (new_crawler None None) =
     (Ok (False, None),
      (new_crawler None None)\<lparr>trace := [GetPdf ''https://www.slusd.us/doc.pdf'']\<rparr>) \<and>
   check_pdf_content failing_site Fast ''https://www.slusd.us/doc.pdf'' (new_crawler None None) =
     (Ok (False, None),
      (new_crawler None None)\<lparr>trace := [Head ''https://www.slusd.us/doc.pdf'']\<rparr>) \<and>
   check_pdf_content oversize_site Fast ''https://www.slusd.us/doc.pdf'' (new_crawler None None) =
     (Ok (False, None),
      (new_crawler None None)\<lparr>trace := [Head ''https://www.slusd.us/doc.pdf'']\<rparr>) \<and>
   check_pdf_content leaf_site Fast ''https://www.slusd.us/doc.pdf'' (new_crawler None None) =
     (Ok (True, Some ''14735 Juniper St.''),
      (new_crawler None None)\<lparr>trace := [Head ''https://www.slusd.us/doc.pdf'',
                                          GetPdf ''https://www.slusd.us/doc.pdf'']\<rparr>) \<and>
   check_pdf_content leaf_site Fast ''https://www.slusd.us/images/map.pdf''
       (new_crawler None None) =
     (Ok (False, None),
      (new_crawler None None)\<lparr>trace := [Head ''https://www.slusd.us/images/map.pdf'',
                                          GetPdf ''https://www.slusd.us/images/map.pdf'']\<rparr>) \<and>
   fst (scan_pages doc_pages) \<and>
   (\<exists>t. Some t \<in> set doc_pages \<and> fst (check_address Fast t)) \<and>
   (\<exists>c' f. crawl_loop leaf_site Baseline 5000 [base_url (new_crawler None None)] 0
            (new_crawler None None) = (Next, [], 1, c') \<and>
          trace c' = [Get ''https://www.slusd.us'', GetPdf ''https://www.slusd.us/doc.pdf'',
                      Sleep 500] \<and>
          found_pdfs c' = [f] \<and> f_url f = ''https://www.slusd.us/doc.pdf'' \<and>
          f_type f = ''PDF'' \<and> f_parent_page f = ''https://www.slusd.us'' \<and>
          f_address_found f = Some ''835 E. 14th St.'') \<and>
   (\<exists>c' f. crawl_loop leaf_site Fast 20000 [base_url (new_crawler None None)] 0
            (new_crawler None None) = (Next, [], 1, c') \<and>
          trace c' = [Get ''https://www.slusd.us'', Head ''https://www.slusd.us/doc.pdf'',
                      GetPdf ''https://www.slusd.us/doc.pdf'', Sleep 200] \<and>
          found_pdfs c' = [f] \<and> f_url f = ''https://www.slusd.us/doc.pdf'' \<and>
          f_type f = ''PDF'' \<and> f_parent_page f = ''https://www.slusd.us'' \<and>
          f_address_found f = Some ''14735 Juniper St.'') \<and>
   (\<exists>c'. crawl_loop oversize_site Fast 20000 [base_url (new_crawler None None)] 0
            (new_crawler None None) = (Next, [], 1, c') \<and>
          trace c' = [Get ''https://www.slusd.us'', Head ''https://www.slusd.us/doc.pdf'',
                      Sleep 200] \<and>
          found_pdfs c' = [])"
proof -
  let ?c = "new_crawler None None"
  let ?pdf = "''https://www.slusd.us/doc.pdf''"
  let ?map = "''https://www.slusd.us/images/map.pdf''"
  let ?root = "''https://www.slusd.us''"
  let ?ct = "''text/html; charset=utf-8''"
  let ?s = "\<lparr>soup_text = ''Welcome'', soup_title = Some ''Home'', soup_hrefs = [?pdf]\<rparr>"
  have b: "base_url ?c = ?root" by (rule base_url_new_crawler)
  have v: "visited_urls ?c = {}" by (rule visited_new_crawler)
  have t: "trace ?c = []" by (rule trace_new_crawler)
  have fp: "found_pdfs ?c = []" by (simp add: new_crawler_def init_csv_file_def)
  have psf: "passes_skip_filter Baseline ?pdf" by (simp add: passes_skip_filter_def)
  have nv: "?pdf \<notin> visited_urls ?c" by (simp add: v)
  have nq: "?pdf \<notin> set []" by simp
  have h1: "0 < (5000::nat)" by simp
  have h1f: "0 < (20000::nat)" by simp
  have h2: "base_url ?c \<notin> visited_urls ?c" by (simp add: v)
  have h3: "''root'' \<noteq> []" by simp
  have h5: "?pdf \<noteq> base_url ?c" by (simp add: b)
  have ct: "\<not> (?ct \<noteq> [] \<and> occurs_in ''pdf'' (lower ?ct))"
    using root_content_type by simp
  have page: "session_get_page leaf_site (length (trace ?c)) (base_url ?c) = Ok (''root'', ?ct)"
    by (simp add: b leaf_site_def plain_page_def)
  have opage: "session_get_page oversize_site (length (trace ?c)) (base_url ?c) =
      Ok (''root'', ?ct)"
    by (simp add: b oversize_site_def leaf_site_def plain_page_def)
  have links: "extract_links leaf_site ''root'' (base_url ?c) = [?pdf]"
    by (simp add: b leaf_site_links)
  have olinks: "extract_links oversize_site ''root'' (base_url ?c) = [?pdf]"
    by (simp add: b oversize_site_links)
  have awake: "\<forall>t. \<not> sleep_interrupted leaf_site t" by (simp add: leaf_site_def)
  have oawake: "\<forall>t. \<not> sleep_interrupted oversize_site t"
    by (simp add: oversize_site_def leaf_site_def)
  have sz: "\<not> (case Some (4096::int) of None \<Rightarrow> False | Some n \<Rightarrow> 50 * (1024 * 1024) < n)"
    by simp
  have big: "50 * (1024 * 1024) < (60000000::int)" by simp
  have run: "crawl_loop leaf_site Baseline 5000 [base_url ?c] 0 ?c = (Next, [], 1, leaf_site_end)"
    by (simp add: b leaf_site_loop)

  note base = linked_documents_are_leaves[where w = leaf_site and c = "?c" and link = "?pdf"
      and v = Baseline and q = "[]" and cur = "?root" and links = "[]" and fl = Next
      and q' = "[]" and c' = leaf_site_end and max_pages = 5000 and n' = 1 and pdf = "?pdf"
      and html = "''root''" and ct = "?ct" and s = "?s" and pages = doc_pages]
  note fast = linked_documents_are_leaves[where w = leaf_site and c = "?c" and link = "?pdf"
      and v = Fast and max_pages = 20000 and pdf = "?pdf" and html = "''root''" and ct = "?ct"
      and s = "?s" and pages = doc_pages and sz = "Some 4096"]
  note over = linked_documents_are_leaves[where w = oversize_site and c = "?c"
      and link = "?pdf" and v = Fast and max_pages = 20000 and pdf = "?pdf"
      and html = "''root''" and ct = "?ct" and s = "?s"]
  note fail = linked_documents_are_leaves[where w = failing_site and c = "?c"
      and link = "?pdf"]
  note other = linked_documents_are_leaves[where w = leaf_site and c = "?c"
      and link = "?map" and sz = "Some 4096"]

  have A: "process_links leaf_site Baseline ?root [?pdf] [] ?c =
     (case check_pdf_content leaf_site Baseline ?pdf ?c of
        (Ok (found, m), c1) \<Rightarrow>
          process_links leaf_site Baseline ?root [] []
            (if found
             then record_finding leaf_site ?pdf ''PDF'' m [] ''PDF document (linked)'' ?root c1
             else c1)
      | (_, c1) \<Rightarrow> (Raised, [], c1))"
    by (rule mp[OF base[THEN conjunct1]])
      (intro conjI leaf_site_valid psf nv nq doc_pdf_suffix)

  obtain fl q' c' where pl: "process_links leaf_site Baseline ?root [?pdf] [] ?c = (fl, q', c')"
    by (rule prod_cases3)
  note iB = linked_documents_are_leaves[where w = leaf_site and c = "?c" and v = Baseline
      and q = "[]" and cur = "?root" and links = "[?pdf]" and fl = fl and q' = q' and c' = c',
      THEN conjunct2, THEN conjunct1]
  have "\<exists>added. q' = [] @ added \<and> (\<forall>u \<in> set added. \<not> suffix ''.pdf'' (lower u))"
    by (rule mp[OF iB pl])
  then obtain added where ad: "q' = [] @ added"
    "\<forall>u \<in> set added. \<not> suffix ''.pdf'' (lower u)"
    by blast
  have ev: "fst (snd (process_links leaf_site Baseline ?root [?pdf] [] ?c)) = []"
    by code_simp
  have "q' = []" using ev unfolding pl by simp
  with pl have B: "\<exists>fl c'. process_links leaf_site Baseline ?root [?pdf] [] ?c = (fl, [], c')"
    by blast

  have C: "\<exists>ev. trace leaf_site_end = trace ?c @ ev \<and>
         (\<forall>u \<in> set (page_gets ev). u = base_url ?c \<or> \<not> suffix ''.pdf'' (lower u))"
    using mp[OF base[THEN conjunct2, THEN conjunct2, THEN conjunct1] run] by (rule conjunct2)

  have gp: "session_get_pdf leaf_site (length (trace ?c)) ?pdf = Ok doc_pages"
    by (simp add: leaf_site_def)
  have E1: "check_pdf_content leaf_site Baseline ?pdf ?c =
     (Ok (True, Some ''835 E. 14th St.''), ?c\<lparr>trace := [GetPdf ?pdf]\<rparr>)"
    using mp[OF base[THEN conjunct2, THEN conjunct2, THEN conjunct2, THEN conjunct1] gp]
    by (simp add: doc_pages_baseline t)

  have gf: "session_get_pdf failing_site (length (trace ?c)) ?pdf = Failed"
    by (simp add: failing_site_def)
  have E2: "check_pdf_content failing_site Baseline ?pdf ?c =
     (Ok (False, None), ?c\<lparr>trace := [GetPdf ?pdf]\<rparr>)"
    using mp[OF fail[THEN conjunct2, THEN conjunct2, THEN conjunct2, THEN conjunct2,
          THEN conjunct1] gf]
    by (simp add: t)

  have hf: "session_head failing_site (length (trace ?c)) ?pdf = Failed \<or>
    (\<exists>n. session_head failing_site (length (trace ?c)) ?pdf = Ok (Some n) \<and>
         50 * (1024 * 1024) < n)"
    by (simp add: failing_site_def)
  have E3a: "check_pdf_content failing_site Fast ?pdf ?c =
     (Ok (False, None), ?c\<lparr>trace := [Head ?pdf]\<rparr>)"
    using mp[OF fail[THEN conjunct2, THEN conjunct2, THEN conjunct2, THEN conjunct2,
          THEN conjunct2, THEN conjunct1] hf]
    by (simp add: t)

  have ho: "session_head oversize_site (length (trace ?c)) ?pdf = Ok (Some 60000000)"
    by (simp add: oversize_site_def)
  have ho': "session_head oversize_site (length (trace ?c)) ?pdf = Failed \<or>
    (\<exists>n. session_head oversize_site (length (trace ?c)) ?pdf = Ok (Some n) \<and>
         50 * (1024 * 1024) < n)"
    by (simp add: oversize_site_def)
  have E3b: "check_pdf_content oversize_site Fast ?pdf ?c =
     (Ok (False, None), ?c\<lparr>trace := [Head ?pdf]\<rparr>)"
    using mp[OF over[THEN conjunct2, THEN conjunct2, THEN conjunct2, THEN conjunct2,
          THEN conjunct2, THEN conjunct1] ho']
    by (simp add: t)

  have hl: "session_head leaf_site (length (trace ?c)) ?pdf = Ok (Some 4096)"
    by (simp add: leaf_site_def)
  have gl: "session_get_pdf leaf_site (Suc (length (trace ?c))) ?pdf = Ok doc_pages"
    by (simp add: leaf_site_def)
  note e4 = fast[THEN conjunct2, THEN conjunct2, THEN conjunct2, THEN conjunct2,
          THEN conjunct2, THEN conjunct2, THEN conjunct1, THEN mp, OF conjI[OF hl sz]]
  have E4a: "check_pdf_content leaf_site Fast ?pdf ?c =
     (Ok (True, Some ''14735 Juniper St.''), ?c\<lparr>trace := [Head ?pdf, GetPdf ?pdf]\<rparr>)"
    using mp[OF e4[THEN conjunct1] gl]
    by (simp add: t doc_pages_scan)

  have hm: "session_head leaf_site (length (trace ?c)) ?map = Ok (Some 4096)"
    by (simp add: leaf_site_def)
  have gm: "session_get_pdf leaf_site (Suc (length (trace ?c))) ?map = Failed"
    by (simp add: leaf_site_def)
  note e4m = other[THEN conjunct2, THEN conjunct2, THEN conjunct2, THEN conjunct2,
          THEN conjunct2, THEN conjunct2, THEN conjunct1, THEN mp, OF conjI[OF hm sz]]
  have E4b: "check_pdf_content leaf_site Fast ?map ?c =
     (Ok (False, None), ?c\<lparr>trace := [Head ?map, GetPdf ?map]\<rparr>)"
    using mp[OF e4m[THEN conjunct2] gm]
    by (simp add: t)

  have sp: "fst (scan_pages doc_pages)" by (simp add: doc_pages_scan)
  note e5 = fast[THEN conjunct2, THEN conjunct2, THEN conjunct2, THEN conjunct2,
          THEN conjunct2, THEN conjunct2, THEN conjunct2, THEN conjunct1]
  have E5: "\<exists>t. Some t \<in> set doc_pages \<and> fst (check_address Fast t)"
    using sp unfolding e5 .

  have hypb: "0 < (5000::nat) \<and> base_url ?c \<notin> visited_urls ?c \<and> ?pdf \<notin> visited_urls ?c \<and>
    found_pdfs ?c = [] \<and>
    session_get_page leaf_site (length (trace ?c)) (base_url ?c) = Ok (''root'', ?ct) \<and>
    ''root'' \<noteq> [] \<and> \<not> (?ct \<noteq> [] \<and> occurs_in ''pdf'' (lower ?ct)) \<and>
    safe_parse_html leaf_site ''root'' = Some ?s \<and>
    extract_links leaf_site ''root'' (base_url ?c) = [?pdf] \<and>
    is_valid_url leaf_site ?c ?pdf \<and> passes_skip_filter Baseline ?pdf \<and> ?pdf \<noteq> base_url ?c \<and>
    suffix ''.pdf'' (lower ?pdf) \<and> (\<forall>t. \<not> sleep_interrupted leaf_site t)"
    by (intro conjI h1 h2 nv fp page h3 ct leaf_site_parse links leaf_site_valid psf h5
        doc_pdf_suffix awake)
  note dB = base[THEN conjunct2, THEN conjunct2, THEN conjunct2, THEN conjunct2,
          THEN conjunct2, THEN conjunct2, THEN conjunct2, THEN conjunct2, THEN mp, OF hypb,
          THEN conjunct1]
  have gpb: "session_get_pdf leaf_site (Suc (length (trace ?c))) ?pdf = Ok doc_pages"
    by (simp add: leaf_site_def)
  from mp[OF dB conjI[OF refl gpb]] obtain cb where cb:
    "crawl_loop leaf_site Baseline 5000 [base_url ?c] 0 ?c = (Next, [], 1, cb)"
    "trace cb = trace ?c @ [Get (base_url ?c), GetPdf ?pdf, Sleep 500]"
    "if fst (check_address Baseline (pdf_text doc_pages []))
     then \<exists>f. found_pdfs cb = [f] \<and> f_url f = ?pdf \<and> f_type f = ''PDF'' \<and>
            f_parent_page f = base_url ?c \<and>
            f_address_found f = snd (check_address Baseline (pdf_text doc_pages []))
     else found_pdfs cb = []"
    by blast
  from cb(3) obtain f where f: "found_pdfs cb = [f]" "f_url f = ?pdf" "f_type f = ''PDF''"
    "f_parent_page f = ?root" "f_address_found f = Some ''835 E. 14th St.''"
    unfolding doc_pages_baseline b by auto
  have tb: "trace cb = [Get ?root, GetPdf ?pdf, Sleep 500]"
    using cb(2) by (simp add: t b)
  have DB: "\<exists>c' f. crawl_loop leaf_site Baseline 5000 [base_url ?c] 0 ?c = (Next, [], 1, c') \<and>
          trace c' = [Get ?root, GetPdf ?pdf, Sleep 500] \<and>
          found_pdfs c' = [f] \<and> f_url f = ?pdf \<and> f_type f = ''PDF'' \<and>
          f_parent_page f = ?root \<and> f_address_found f = Some ''835 E. 14th St.''"
    using cb(1) tb f by blast

  have hypf: "0 < (20000::nat) \<and> base_url ?c \<notin> visited_urls ?c \<and> ?pdf \<notin> visited_urls ?c \<and>
    found_pdfs ?c = [] \<and>
    session_get_page leaf_site (length (trace ?c)) (base_url ?c) = Ok (''root'', ?ct) \<and>
    ''root'' \<noteq> [] \<and> \<not> (?ct \<noteq> [] \<and> occurs_in ''pdf'' (lower ?ct)) \<and>
    safe_parse_html leaf_site ''root'' = Some ?s \<and>
    extract_links leaf_site ''root'' (base_url ?c) = [?pdf] \<and>
    is_valid_url leaf_site ?c ?pdf \<and> passes_skip_filter Fast ?pdf \<and> ?pdf \<noteq> base_url ?c \<and>
    suffix ''.pdf'' (lower ?pdf) \<and> (\<forall>t. \<not> sleep_interrupted leaf_site t)"
    by (intro conjI h1f h2 nv fp page h3 ct leaf_site_parse links leaf_site_valid
        doc_pdf_not_skipped h5 doc_pdf_suffix awake)
  note dF = fast[THEN conjunct2, THEN conjunct2, THEN conjunct2, THEN conjunct2,
          THEN conjunct2, THEN conjunct2, THEN conjunct2, THEN conjunct2, THEN mp, OF hypf,
          THEN conjunct2, THEN conjunct1]
  have hl1: "session_head leaf_site (Suc (length (trace ?c))) ?pdf = Ok (Some 4096)"
    by (simp add: leaf_site_def)
  have gl2: "session_get_pdf leaf_site (Suc (Suc (length (trace ?c)))) ?pdf = Ok doc_pages"
    by (simp add: leaf_site_def)
  from mp[OF dF conjI[OF refl conjI[OF hl1 conjI[OF sz gl2]]]] obtain cf where cf:
    "crawl_loop leaf_site Fast 20000 [base_url ?c] 0 ?c = (Next, [], 1, cf)"
    "trace cf = trace ?c @ [Get (base_url ?c), Head ?pdf, GetPdf ?pdf, Sleep 200]"
    "if \<exists>t. Some t \<in> set doc_pages \<and> fst (check_address Fast t)
     then \<exists>f. found_pdfs cf = [f] \<and> f_url f = ?pdf \<and> f_type f = ''PDF'' \<and>
            f_parent_page f = base_url ?c \<and> f_address_found f = snd (scan_pages doc_pages)
     else found_pdfs cf = []"
    by blast
  from cf(3) E5 have "\<exists>f. found_pdfs cf = [f] \<and> f_url f = ?pdf \<and> f_type f = ''PDF'' \<and>
            f_parent_page f = base_url ?c \<and> f_address_found f = snd (scan_pages doc_pages)"
    by (simp only: if_True)
  then obtain g where g: "found_pdfs cf = [g]" "f_url g = ?pdf" "f_type g = ''PDF''"
    "f_parent_page g = ?root" "f_address_found g = Some ''14735 Juniper St.''"
    unfolding doc_pages_scan b by auto
  have tf: "trace cf = [Get ?root, Head ?pdf, GetPdf ?pdf, Sleep 200]"
    using cf(2) by (simp add: t b)
  have DF: "\<exists>c' f. crawl_loop leaf_site Fast 20000 [base_url ?c] 0 ?c = (Next, [], 1, c') \<and>
          trace c' = [Get ?root, Head ?pdf, GetPdf ?pdf, Sleep 200] \<and>
          found_pdfs c' = [f] \<and> f_url f = ?pdf \<and> f_type f = ''PDF'' \<and>
          f_parent_page f = ?root \<and> f_address_found f = Some ''14735 Juniper St.''"
    using cf(1) tf g by blast

  have hypo: "0 < (20000::nat) \<and> base_url ?c \<notin> visited_urls ?c \<and> ?pdf \<notin> visited_urls ?c \<and>
    found_pdfs ?c = [] \<and>
    session_get_page oversize_site (length (trace ?c)) (base_url ?c) = Ok (''root'', ?ct) \<and>
    ''root'' \<noteq> [] \<and> \<not> (?ct \<noteq> [] \<and> occurs_in ''pdf'' (lower ?ct)) \<and>
    safe_parse_html oversize_site ''root'' = Some ?s \<and>
    extract_links oversize_site ''root'' (base_url ?c) = [?pdf] \<and>
    is_valid_url oversize_site ?c ?pdf \<and> passes_skip_filter Fast ?pdf \<and> ?pdf \<noteq> base_url ?c \<and>
    suffix ''.pdf'' (lower ?pdf) \<and> (\<forall>t. \<not> sleep_interrupted oversize_site t)"
    by (intro conjI h1f h2 nv fp opage h3 ct oversize_site_parse olinks oversize_site_valid
        doc_pdf_not_skipped h5 doc_pdf_suffix oawake)
  note dO = over[THEN conjunct2, THEN conjunct2, THEN conjunct2, THEN conjunct2,
          THEN conjunct2, THEN conjunct2, THEN conjunct2, THEN conjunct2, THEN mp, OF hypo,
          THEN conjunct2, THEN conjunct2]
  have ho1: "session_head oversize_site (Suc (length (trace ?c))) ?pdf = Failed \<or>
    (\<exists>n. session_head oversize_site (Suc (length (trace ?c))) ?pdf = Ok (Some n) \<and>
         50 * (1024 * 1024) < n)"
    by (simp add: oversize_site_def)
  from mp[OF dO conjI[OF refl ho1]] obtain co where co:
    "crawl_loop oversize_site Fast 20000 [base_url ?c] 0 ?c = (Next, [], 1, co)"
    "trace co = trace ?c @ [Get (base_url ?c), Head ?pdf, Sleep 200]"
    "found_pdfs co = []"
    by blast
  have tco: "trace co = [Get ?root, Head ?pdf, Sleep 200]"
    using co(2) by (simp add: t b)
  have DO: "\<exists>c'. crawl_loop oversize_site Fast 20000 [base_url ?c] 0 ?c = (Next, [], 1, c') \<and>
          trace c' = [Get ?root, Head ?pdf, Sleep 200] \<and> found_pdfs c' = []"
    using co(1) tco co(3) by blast

  show ?thesis
    by (intro conjI leaf_site_valid psf doc_pdf_not_skipped doc_pdf_suffix A B run C E1 E2
        E3a E3b E4a E4b sp E5 DB DF DO)
qed

text \<open>
  The fast crawler does not fetch every linked document.  On the oversize site the root
  page links to a document in scope, not caught by the skip filter, whose text contains
  the address, and whose announced size exceeds 50 MB: the document is probed with a
  \<open>HEAD\<close> request, never fetched, and the run ends with no finding.
\<close>

lemma oversize_site_main:
  "main oversize_site Fast None None = (Summary_printed, oversize_site_end)"
  by code_simp

lemma doc_pages_fast:
  "check_address Fast (pdf_text doc_pages []) = (True, Some ''14735 Juniper St.'')"
  by code_simp

theorem oversize_linked_document_is_not_fetched:
  "is_valid_url oversize_site (new_crawler None None) ''https://www.slusd.us/doc.pdf'' \<and>
   passes_skip_filter Fast ''https://www.slusd.us/doc.pdf'' \<and>
   suffix ''.pdf'' (lower ''https://www.slusd.us/doc.pdf'') \<and>
   session_get_pdf oversize_site 2 ''https://www.slusd.us/doc.pdf'' = Ok doc_pages \<and>
   check_address Fast (pdf_text doc_pages []) = (True, Some ''14735 Juniper St.'') \<and>
   main oversize_site Fast None None = (Summary_printed, oversize_site_end) \<and>
   found_pdfs oversize_site_end = [] \<and>
   trace oversize_site_end =
     [Get ''https://www.slusd.us'', Head ''https://www.slusd.us/doc.pdf'', Sleep 200]"
proof -
  have g: "session_get_pdf oversize_site 2 ''https://www.slusd.us/doc.pdf'' = Ok doc_pages"
    by (simp add: oversize_site_def leaf_site_def)
  have e: "found_pdfs oversize_site_end = []"
    "trace oversize_site_end =
       [Get ''https://www.slusd.us'', Head ''https://www.slusd.us/doc.pdf'', Sleep 200]"
    by (simp_all add: oversize_site_end_def)
  from oversize_site_valid doc_pdf_not_skipped doc_pdf_suffix g doc_pages_fast
    oversize_site_main e
  show ?thesis by simp
qed

end
